theory Spec2Isabelle
  imports Complex_Main "HOL-Library.Sublist"
begin

section \<open>Leaky integrate-and-fire simulation: the embedding\<close>

text \<open>
  The notebook \<^verbatim>\<open>exercises/exe_02_jit.ipynb\<close> defines the simulator twice: a first
  \<^verbatim>\<open>run_simulation\<close> that calls the jitted \<^verbatim>\<open>run_step\<close> once per time point, and
  a second \<^verbatim>\<open>run_simulation\<close> with the body of the step written inside the loop.

  Numbers are modelled twice. In the first part of the theory a Python or JAX float is a
  \<^typ>\<open>real\<close> and arithmetic is exact; it carries the properties that rounding does not
  touch: the shape of the step, the resets, the shape errors, the store. The second part
  (\<open>run_step_r\<close>, \<open>run_simulation_r\<close>, \<open>run_simulation2_r\<close>) is the same code with
  every floating-point operation rounded, and carries the properties that depend on the
  computed numbers. A one-dimensional array is a list, a two-dimensional array is its
  column count together with its rows. Every exception the code can raise is a value of
  \<open>error\<close>.
\<close>

datatype error =
    DimensionMismatch   \<comment> \<open>shapes rejected by \<^verbatim>\<open>dot\<close> or by broadcasting\<close>
  | ZeroDivisionError   \<comment> \<open>division by 0.0 on Python floats, also inside \<^verbatim>\<open>arange\<close>\<close>
  | NonFinite           \<comment> \<open>a jitted division by 0 put inf or nan into an array: no real value\<close>
  | TypeError           \<comment> \<open>an operand is not the kind of object the operation needs\<close>
  | IndexError          \<comment> \<open>\<^verbatim>\<open>xs[-1]\<close> on an empty list\<close>

type_synonym vec = "real list"
type_synonym mask = "bool list"

datatype mat = Mat (ncols: nat) (rows: "real list list")

definition nrows :: "mat \<Rightarrow> nat" where
  "nrows W = length (rows W)"

definition mat_ok :: "mat \<Rightarrow> bool" where
  "mat_ok W = list_all (\<lambda>r. length r = ncols W) (rows W)"

definition square :: "nat \<Rightarrow> mat \<Rightarrow> bool" where
  "square n W = (mat_ok W \<and> nrows W = n \<and> ncols W = n)"

definition bindE :: "error + 'a \<Rightarrow> ('a \<Rightarrow> error + 'b) \<Rightarrow> error + 'b" where
  "bindE m f = (case m of Inl e \<Rightarrow> Inl e | Inr x \<Rightarrow> f x)"

subsection \<open>Array primitives\<close>

text \<open>
  Elementwise binary operations on two one-dimensional arrays follow the broadcasting
  rule: equal lengths, or one of the two has length 1 and is stretched; anything else is
  rejected.
\<close>

definition broadcast :: "('a \<Rightarrow> 'b \<Rightarrow> 'c) \<Rightarrow> 'a list \<Rightarrow> 'b list \<Rightarrow> error + 'c list" where
  "broadcast f xs ys =
     (if length xs = length ys then Inr (map2 f xs ys)
      else if length xs = 1 then Inr (map (f (hd xs)) ys)
      else if length ys = 1 then Inr (map (\<lambda>x. f x (hd ys)) xs)
      else Inl DimensionMismatch)"

text \<open>\<^verbatim>\<open>jnp.where(cond, x, ys)\<close> with a scalar \<open>x\<close>.\<close>

definition jnp_where :: "mask \<Rightarrow> real \<Rightarrow> vec \<Rightarrow> error + vec" where
  "jnp_where c x ys = broadcast (\<lambda>b y. if b then x else y) c ys"

text \<open>
  \<^verbatim>\<open>W.dot(spiked)\<close>: the contracted dimension must agree; the boolean vector is read
  as 0/1.
\<close>

definition dot :: "mat \<Rightarrow> mask \<Rightarrow> error + vec" where
  "dot W s =
     (if ncols W = length s
      then Inr (map (\<lambda>r. sum_list (map2 (\<lambda>w b. w * of_bool b) r s)) (rows W))
      else Inl DimensionMismatch)"

text \<open>
  \<^verbatim>\<open>(dt / tau_m) * xs\<close> inside the jitted step: the division is a floating-point
  division, which does not raise. With \<open>tau_m = 0\<close> the quotient is inf or nan and so is
  every element of the product; an empty product has no element and stays empty.
\<close>

definition jit_scale :: "real \<Rightarrow> real \<Rightarrow> vec \<Rightarrow> error + vec" where
  "jit_scale dt tau_m xs =
     (if tau_m = 0 then (if xs = [] then Inr [] else Inl NonFinite)
      else Inr (map (\<lambda>x. (dt / tau_m) * x) xs))"

text \<open>\<^verbatim>\<open>dt / tau_m\<close> on Python floats, outside any jitted function.\<close>

definition py_div :: "real \<Rightarrow> real \<Rightarrow> error + real" where
  "py_div a b = (if b = 0 then Inl ZeroDivisionError else Inr (a / b))"

text \<open>
  \<^verbatim>\<open>jnp.arange(start, stop, step)\<close> in exact arithmetic: \<open>\<lceil>(stop - start) / step\<rceil>\<close>
  points (none when that is negative), \<open>start + i * step\<close> each; the quotient divides by
  zero when the step is 0.
\<close>

definition arange :: "real \<Rightarrow> real \<Rightarrow> real \<Rightarrow> error + real list" where
  "arange start stop step =
     (if step = 0 then Inl ZeroDivisionError
      else Inr (map (\<lambda>i. start + real i * step) [0..<nat \<lceil>(stop - start) / step\<rceil>]))"

subsection \<open>The step\<close>

text \<open>
  The first four statements of \<^verbatim>\<open>run_step\<close>: the spike mask, the potentials with the
  spiking neurons reset, and the increment \<open>dV\<close>.
\<close>

definition run_step_dV ::
  "vec \<Rightarrow> real \<Rightarrow> real \<Rightarrow> mat \<Rightarrow> real \<Rightarrow> real \<Rightarrow> real \<Rightarrow> error + (mask \<times> vec \<times> vec)" where
  "run_step_dV v_prev v_thresh v_reset W tau_m dt membr_R =
     (let spiked = map (\<lambda>v. v \<ge> v_thresh) v_prev in
      bindE (jnp_where spiked v_reset v_prev) (\<lambda>V.
      bindE (dot W spiked) (\<lambda>I_syn.
      bindE (broadcast (+) (map (\<lambda>v. - v + v_reset) V) (map (\<lambda>x. membr_R * x) I_syn)) (\<lambda>s.
      bindE (jit_scale dt tau_m s) (\<lambda>dV.
      Inr (spiked, V, dV))))))"

text \<open>\<^verbatim>\<open>run_step\<close>: the rest adds \<open>dV\<close> and resets the spiking neurons again.\<close>

definition run_step ::
  "vec \<Rightarrow> real \<Rightarrow> real \<Rightarrow> mat \<Rightarrow> real \<Rightarrow> real \<Rightarrow> real \<Rightarrow> error + (vec \<times> mask)" where
  "run_step v_prev v_thresh v_reset W tau_m dt membr_R =
     bindE (run_step_dV v_prev v_thresh v_reset W tau_m dt membr_R) (\<lambda>(spiked, V, dV).
     bindE (broadcast (+) V dV) (\<lambda>V.
     bindE (jnp_where spiked v_reset V) (\<lambda>V.
     Inr (V, spiked))))"

subsection \<open>The first \<^verbatim>\<open>run_simulation\<close>: one call of \<^verbatim>\<open>run_step\<close> per time point\<close>

text \<open>
  The loop over \<^verbatim>\<open>enumerate(jnp.arange(0, t_max, dt))\<close>, with the loop variables \<open>V\<close>
  and \<open>spike_train\<close> as state. The time point with index 0 is skipped.
\<close>

fun run_loop ::
  "mat \<Rightarrow> real \<Rightarrow> real \<Rightarrow> real \<Rightarrow> real \<Rightarrow> real \<Rightarrow> (nat \<times> real) list \<Rightarrow> vec \<Rightarrow> mask list
     \<Rightarrow> error + (vec \<times> mask list)" where
  "run_loop W tau_m v_reset v_thresh membr_R dt [] V spike_train = Inr (V, spike_train)"
| "run_loop W tau_m v_reset v_thresh membr_R dt ((i, t) # its) V spike_train =
     (if i = 0 then run_loop W tau_m v_reset v_thresh membr_R dt its V spike_train
      else (case run_step V v_thresh v_reset W tau_m dt membr_R of
              Inl e \<Rightarrow> Inl e
            | Inr (V', spiked) \<Rightarrow>
                run_loop W tau_m v_reset v_thresh membr_R dt its V' (spike_train @ [spiked])))"

definition run_simulation ::
  "mat \<Rightarrow> vec \<Rightarrow> real \<Rightarrow> real \<Rightarrow> real \<Rightarrow> real \<Rightarrow> real \<Rightarrow> real \<Rightarrow> error + mask list" where
  "run_simulation W V tau_m v_reset v_thresh membr_R t_max dt =
     (case arange 0 t_max dt of
        Inl e \<Rightarrow> Inl e
      | Inr ts \<Rightarrow>
          (case run_loop W tau_m v_reset v_thresh membr_R dt (enumerate 0 ts) V [] of
             Inl e \<Rightarrow> Inl e
           | Inr (V', spike_train) \<Rightarrow> Inr spike_train))"

text \<open>
  The state of that loop after the time point with index \<open>k\<close>, that is after \<open>k\<close> steps:
  the potentials the next step starts from, and the masks recorded so far. The code does
  not return the potentials; this is the same loop stopped early.
\<close>

definition run_upto ::
  "mat \<Rightarrow> vec \<Rightarrow> real \<Rightarrow> real \<Rightarrow> real \<Rightarrow> real \<Rightarrow> real \<Rightarrow> real \<Rightarrow> nat \<Rightarrow> error + (vec \<times> mask list)" where
  "run_upto W V tau_m v_reset v_thresh membr_R t_max dt k =
     (case arange 0 t_max dt of
        Inl e \<Rightarrow> Inl e
      | Inr ts \<Rightarrow> run_loop W tau_m v_reset v_thresh membr_R dt (take (Suc k) (enumerate 0 ts)) V [])"

subsection \<open>The second \<^verbatim>\<open>run_simulation\<close>: the step written in the loop\<close>

text \<open>
  Not jitted: \<^verbatim>\<open>dt / tau_m\<close> divides two Python floats and raises on 0. The mask is
  appended before the update, and the current is computed from \<^verbatim>\<open>spike_train[-1]\<close>.
\<close>

fun run_loop2 ::
  "mat \<Rightarrow> real \<Rightarrow> real \<Rightarrow> real \<Rightarrow> real \<Rightarrow> real \<Rightarrow> (nat \<times> real) list \<Rightarrow> vec \<Rightarrow> mask list
     \<Rightarrow> error + (vec \<times> mask list)" where
  "run_loop2 W tau_m v_reset v_thresh membr_R dt [] V spike_train = Inr (V, spike_train)"
| "run_loop2 W tau_m v_reset v_thresh membr_R dt ((i, t) # its) V spike_train =
     (if i = 0 then run_loop2 W tau_m v_reset v_thresh membr_R dt its V spike_train
      else
        (let fired = map (\<lambda>v. v \<ge> v_thresh) V in
         bindE (jnp_where fired v_reset V) (\<lambda>V1.
         (let spike_train1 = spike_train @ [fired] in
          bindE (dot W (last spike_train1)) (\<lambda>I_syn.
          bindE (py_div dt tau_m) (\<lambda>q.
          bindE (broadcast (+) (map (\<lambda>v. - v + v_reset) V1) (map (\<lambda>x. membr_R * x) I_syn)) (\<lambda>s.
          (let dV = map (\<lambda>x. q * x) s in
           bindE (broadcast (+) V1 dV) (\<lambda>V2.
           bindE (jnp_where fired v_reset V2) (\<lambda>V3.
             run_loop2 W tau_m v_reset v_thresh membr_R dt its V3 spike_train1))))))))))"

definition run_simulation2 ::
  "mat \<Rightarrow> vec \<Rightarrow> real \<Rightarrow> real \<Rightarrow> real \<Rightarrow> real \<Rightarrow> real \<Rightarrow> real \<Rightarrow> error + mask list" where
  "run_simulation2 W V tau_m v_reset v_thresh membr_R t_max dt =
     (case arange 0 t_max dt of
        Inl e \<Rightarrow> Inl e
      | Inr ts \<Rightarrow>
          (case run_loop2 W tau_m v_reset v_thresh membr_R dt (enumerate 0 ts) V [] of
             Inl e \<Rightarrow> Inl e
           | Inr (V', spike_train) \<Rightarrow> Inr spike_train))"


subsection \<open>The same code on a store of objects\<close>

text \<open>
  Whether a call changes an array of its caller depends on which names share an object, so
  the two variants are written once more over a store. The store is the list of all
  objects, an object is named by its index, and allocation appends. A NumPy array can be
  written in place, a JAX array cannot: \<^verbatim>\<open>V += dV\<close> writes into \<open>V\<close> when \<open>V\<close> is a NumPy
  array, and is \<^verbatim>\<open>V = V + dV\<close> with a new array when \<open>V\<close> is a JAX array. Every other
  array operation returns a new array; \<^verbatim>\<open>append\<close> writes into the list object. A program
  takes the store and returns its result, or its exception, with the store it leaves.
\<close>

datatype kind = Numpy | Jax

datatype obj =
    FloatArr kind vec
  | BoolArr kind mask
  | MatArr kind mat
  | PyList "nat list"

type_synonym heap = "obj list"
type_synonym 'a prog = "heap \<Rightarrow> (error + 'a) \<times> heap"

definition ret :: "'a \<Rightarrow> 'a prog" where
  "ret x h = (Inr x, h)"

definition raise :: "error \<Rightarrow> 'a prog" where
  "raise e h = (Inl e, h)"

definition lift :: "error + 'a \<Rightarrow> 'a prog" where
  "lift r h = (r, h)"

definition bindS :: "'a prog \<Rightarrow> ('a \<Rightarrow> 'b prog) \<Rightarrow> 'b prog" where
  "bindS m f h = (case m h of (Inl e, h') \<Rightarrow> (Inl e, h') | (Inr x, h') \<Rightarrow> f x h')"

definition new :: "obj \<Rightarrow> nat prog" where
  "new x h = (Inr (length h), h @ [x])"

definition deref :: "nat \<Rightarrow> obj prog" where
  "deref r h = (if r < length h then (Inr (h ! r), h) else (Inl TypeError, h))"

definition put_obj :: "nat \<Rightarrow> obj \<Rightarrow> unit prog" where
  "put_obj r x h = (if r < length h then (Inr (), h[r := x]) else (Inl TypeError, h))"

definition float_at :: "nat \<Rightarrow> (kind \<times> vec) prog" where
  "float_at r = bindS (deref r) (\<lambda>x. case x of FloatArr k xs \<Rightarrow> ret (k, xs) | _ \<Rightarrow> raise TypeError)"

definition bool_at :: "nat \<Rightarrow> (kind \<times> mask) prog" where
  "bool_at r = bindS (deref r) (\<lambda>x. case x of BoolArr k bs \<Rightarrow> ret (k, bs) | _ \<Rightarrow> raise TypeError)"

definition mat_at :: "nat \<Rightarrow> (kind \<times> mat) prog" where
  "mat_at r = bindS (deref r) (\<lambda>x. case x of MatArr k W \<Rightarrow> ret (k, W) | _ \<Rightarrow> raise TypeError)"

definition list_at :: "nat \<Rightarrow> nat list prog" where
  "list_at r = bindS (deref r) (\<lambda>x. case x of PyList rs \<Rightarrow> ret rs | _ \<Rightarrow> raise TypeError)"

definition join :: "kind \<Rightarrow> kind \<Rightarrow> kind" where
  "join a b = (if a = Jax \<or> b = Jax then Jax else Numpy)"

text \<open>
  The array operations of the loop body, one per Python expression: \<^verbatim>\<open>V >= c\<close>,
  \<^verbatim>\<open>jnp.where(c, x, V)\<close>, \<^verbatim>\<open>l.append(x)\<close>, \<^verbatim>\<open>l[-1]\<close>, \<^verbatim>\<open>W.dot(s)\<close>, \<^verbatim>\<open>-V\<close>,
  \<^verbatim>\<open>V + c\<close>, \<^verbatim>\<open>c * V\<close>, \<^verbatim>\<open>a + b\<close> and \<^verbatim>\<open>a += b\<close>.
\<close>

definition ge_op :: "nat \<Rightarrow> real \<Rightarrow> nat prog" where
  "ge_op V c = bindS (float_at V) (\<lambda>(k, xs). new (BoolArr k (map (\<lambda>v. v \<ge> c) xs)))"

definition where_op :: "nat \<Rightarrow> real \<Rightarrow> nat \<Rightarrow> nat prog" where
  "where_op c x V =
     bindS (bool_at c) (\<lambda>(kc, bs).
     bindS (float_at V) (\<lambda>(kv, vs).
     bindS (lift (jnp_where bs x vs)) (\<lambda>r. new (FloatArr Jax r))))"

definition append_op :: "nat \<Rightarrow> nat \<Rightarrow> unit prog" where
  "append_op l x = bindS (list_at l) (\<lambda>rs. put_obj l (PyList (rs @ [x])))"

definition last_op :: "nat \<Rightarrow> nat prog" where
  "last_op l = bindS (list_at l) (\<lambda>rs. if rs = [] then raise IndexError else ret (last rs))"

definition dot_op :: "nat \<Rightarrow> nat \<Rightarrow> nat prog" where
  "dot_op W s =
     bindS (mat_at W) (\<lambda>(kw, w).
     bindS (bool_at s) (\<lambda>(ks, bs).
     bindS (lift (dot w bs)) (\<lambda>r. new (FloatArr kw r))))"

definition neg_op :: "nat \<Rightarrow> nat prog" where
  "neg_op V = bindS (float_at V) (\<lambda>(k, xs). new (FloatArr k (map (\<lambda>v. - v) xs)))"

definition add_scalar_op :: "nat \<Rightarrow> real \<Rightarrow> nat prog" where
  "add_scalar_op V c = bindS (float_at V) (\<lambda>(k, xs). new (FloatArr k (map (\<lambda>v. v + c) xs)))"

definition rmul_scalar_op :: "real \<Rightarrow> nat \<Rightarrow> nat prog" where
  "rmul_scalar_op c V = bindS (float_at V) (\<lambda>(k, xs). new (FloatArr k (map (\<lambda>x. c * x) xs)))"

definition add_op :: "nat \<Rightarrow> nat \<Rightarrow> nat prog" where
  "add_op a b =
     bindS (float_at a) (\<lambda>(ka, xs).
     bindS (float_at b) (\<lambda>(kb, ys).
     bindS (lift (broadcast (+) xs ys)) (\<lambda>r. new (FloatArr (join ka kb) r))))"

definition iadd_op :: "nat \<Rightarrow> nat \<Rightarrow> nat prog" where
  "iadd_op a b =
     bindS (float_at a) (\<lambda>(ka, xs).
     bindS (float_at b) (\<lambda>(kb, ys).
       (case ka of
          Jax \<Rightarrow> bindS (lift (broadcast (+) xs ys)) (\<lambda>r. new (FloatArr Jax r))
        | Numpy \<Rightarrow>
            (if length ys = length xs \<or> length ys = 1
             then bindS (lift (broadcast (+) xs ys)) (\<lambda>r.
                  bindS (put_obj a (FloatArr Numpy r)) (\<lambda>_. ret a))
             else raise DimensionMismatch))))"

text \<open>
  The jitted \<^verbatim>\<open>run_step\<close> reads its array arguments, runs the compiled step, which is
  the function \<open>run_step\<close> above, and returns two new JAX arrays.
\<close>

definition run_step_st ::
  "nat \<Rightarrow> real \<Rightarrow> real \<Rightarrow> nat \<Rightarrow> real \<Rightarrow> real \<Rightarrow> real \<Rightarrow> (nat \<times> nat) prog" where
  "run_step_st v_prev v_thresh v_reset W tau_m dt membr_R =
     bindS (float_at v_prev) (\<lambda>(kv, v).
     bindS (mat_at W) (\<lambda>(kw, w).
     bindS (lift (run_step v v_thresh v_reset w tau_m dt membr_R)) (\<lambda>(V', spiked).
     bindS (new (FloatArr Jax V')) (\<lambda>V.
     bindS (new (BoolArr Jax spiked)) (\<lambda>s.
     ret (V, s))))))"

fun run_loop_st ::
  "nat \<Rightarrow> real \<Rightarrow> real \<Rightarrow> real \<Rightarrow> real \<Rightarrow> real \<Rightarrow> (nat \<times> real) list \<Rightarrow> nat \<Rightarrow> nat \<Rightarrow> nat prog" where
  "run_loop_st W tau_m v_reset v_thresh membr_R dt [] V spike_train = ret spike_train"
| "run_loop_st W tau_m v_reset v_thresh membr_R dt ((i, t) # its) V spike_train =
     (if i = 0 then run_loop_st W tau_m v_reset v_thresh membr_R dt its V spike_train
      else
        bindS (run_step_st V v_thresh v_reset W tau_m dt membr_R) (\<lambda>(V', spiked).
        bindS (append_op spike_train spiked) (\<lambda>_.
          run_loop_st W tau_m v_reset v_thresh membr_R dt its V' spike_train)))"

definition run_simulation_st ::
  "nat \<Rightarrow> nat \<Rightarrow> real \<Rightarrow> real \<Rightarrow> real \<Rightarrow> real \<Rightarrow> real \<Rightarrow> real \<Rightarrow> nat prog" where
  "run_simulation_st W V tau_m v_reset v_thresh membr_R t_max dt =
     bindS (new (PyList [])) (\<lambda>spike_train.
     bindS (lift (arange 0 t_max dt)) (\<lambda>ts.
     bindS (new (FloatArr Jax ts)) (\<lambda>_.
       run_loop_st W tau_m v_reset v_thresh membr_R dt (enumerate 0 ts) V spike_train)))"

text \<open>The second variant, statement by statement.\<close>

fun run_loop2_st ::
  "nat \<Rightarrow> real \<Rightarrow> real \<Rightarrow> real \<Rightarrow> real \<Rightarrow> real \<Rightarrow> (nat \<times> real) list \<Rightarrow> nat \<Rightarrow> nat \<Rightarrow> nat prog" where
  "run_loop2_st W tau_m v_reset v_thresh membr_R dt [] V spike_train = ret spike_train"
| "run_loop2_st W tau_m v_reset v_thresh membr_R dt ((i, t) # its) V spike_train =
     (if i = 0 then run_loop2_st W tau_m v_reset v_thresh membr_R dt its V spike_train
      else
        bindS (ge_op V v_thresh) (\<lambda>fired.
        bindS (where_op fired v_reset V) (\<lambda>V1.
        bindS (append_op spike_train fired) (\<lambda>_.
        bindS (last_op spike_train) (\<lambda>s.
        bindS (dot_op W s) (\<lambda>I_syn.
        bindS (lift (py_div dt tau_m)) (\<lambda>q.
        bindS (neg_op V1) (\<lambda>a.
        bindS (add_scalar_op a v_reset) (\<lambda>b.
        bindS (rmul_scalar_op membr_R I_syn) (\<lambda>c.
        bindS (add_op b c) (\<lambda>d.
        bindS (rmul_scalar_op q d) (\<lambda>dV.
        bindS (iadd_op V1 dV) (\<lambda>V2.
        bindS (where_op fired v_reset V2) (\<lambda>V3.
          run_loop2_st W tau_m v_reset v_thresh membr_R dt its V3 spike_train))))))))))))))"

definition run_simulation2_st ::
  "nat \<Rightarrow> nat \<Rightarrow> real \<Rightarrow> real \<Rightarrow> real \<Rightarrow> real \<Rightarrow> real \<Rightarrow> real \<Rightarrow> nat prog" where
  "run_simulation2_st W V tau_m v_reset v_thresh membr_R t_max dt =
     bindS (new (PyList [])) (\<lambda>spike_train.
     bindS (lift (arange 0 t_max dt)) (\<lambda>ts.
     bindS (new (FloatArr Jax ts)) (\<lambda>_.
       run_loop2_st W tau_m v_reset v_thresh membr_R dt (enumerate 0 ts) V spike_train)))"

text \<open>The masks a returned list object holds.\<close>

definition masks_of :: "heap \<Rightarrow> nat \<Rightarrow> mask list" where
  "masks_of h l =
     (case h ! l of
        PyList rs \<Rightarrow> map (\<lambda>r. case h ! r of BoolArr k bs \<Rightarrow> bs | _ \<Rightarrow> []) rs
      | _ \<Rightarrow> [])"

subsection \<open>Predicates for the proofs about the store\<close>

text \<open>
  \<open>keeps h0 m Q\<close>: started in any store that extends \<open>h0\<close>, the program \<open>m\<close> leaves a
  store that extends \<open>h0\<close>, and a returned value satisfies \<open>Q\<close>. \<open>holds_train h l tr\<close>: the
  list object \<open>l\<close> holds boolean arrays with the contents \<open>tr\<close>. \<open>refined out l pure\<close>: the
  outcome of a loop on the store agrees with the outcome of the loop on values.
\<close>

definition keeps :: "heap \<Rightarrow> 'a prog \<Rightarrow> ('a \<Rightarrow> bool) \<Rightarrow> bool" where
  "keeps h0 m Q =
     (\<forall>h. prefix h0 h \<longrightarrow>
        (case m h of (r, h') \<Rightarrow> prefix h0 h' \<and> (case r of Inl e \<Rightarrow> True | Inr x \<Rightarrow> Q x)))"

definition holds_train :: "heap \<Rightarrow> nat \<Rightarrow> mask list \<Rightarrow> bool" where
  "holds_train h l tr =
     (l < length h \<and>
      (\<exists>rs. h ! l = PyList rs \<and> length rs = length tr
         \<and> (\<forall>j<length rs. rs ! j < length h \<and> (\<exists>k. h ! (rs ! j) = BoolArr k (tr ! j)))))"

definition refined :: "(error + nat) \<times> heap \<Rightarrow> nat \<Rightarrow> error + (vec \<times> mask list) \<Rightarrow> bool" where
  "refined out l pure =
     (case out of
        (Inl e, h') \<Rightarrow> pure = Inl e
      | (Inr r, h') \<Rightarrow> r = l \<and> (\<exists>v' tr'. pure = Inr (v', tr') \<and> holds_train h' l tr'))"

subsection \<open>Counting the recorded steps\<close>

text \<open>The number of time points of a loop that are not skipped: the index is not 0.\<close>

definition recorded :: "(nat \<times> real) list \<Rightarrow> nat" where
  "recorded its = length (filter (\<lambda>p. fst p \<noteq> 0) its)"

section \<open>Floating-point rounding\<close>

text \<open>
  JAX arrays hold float32 values (the notebook does not enable 64-bit mode) and a Python
  float is a float64. A finite float of precision \<open>p\<close> is an integer of magnitude below
  \<open>2 ^ p\<close> times a power of two. \<open>rne p x\<close> is the float of precision \<open>p\<close> nearest to
  \<open>x\<close>, ties going to the even integer: the value IEEE 754 arithmetic returns for an
  operation whose exact result is \<open>x\<close>. The exponent is not bounded, so overflow to
  infinity and the coarser spacing of subnormal numbers are outside the model.

  \<open>round_even\<close> rounds a real to the nearest integer, ties to even. \<open>ilog2 x\<close> is the
  exponent of a positive \<open>x\<close>, that is \<open>\<lfloor>log\<^sub>2 x\<rfloor>\<close>, computed by halving or doubling.
\<close>

definition round_even :: "real \<Rightarrow> int" where
  "round_even y =
     (let f = \<lfloor>y\<rfloor>; r = y - of_int f
      in if r < 1 / 2 then f else if 1 / 2 < r then f + 1 else if even f then f else f + 1)"

function halvings :: "real \<Rightarrow> int" where
  "halvings x = (if x < 2 then 0 else 1 + halvings (x / 2))"
  by pat_completeness auto
termination
proof (relation "measure (\<lambda>x. nat \<lfloor>x\<rfloor>)")
  fix x :: real
  assume "\<not> x < 2"
  then have "\<lfloor>x / 2\<rfloor> < \<lfloor>x\<rfloor>" by linarith
  moreover from \<open>\<not> x < 2\<close> have "0 < \<lfloor>x\<rfloor>" by linarith
  ultimately show "(x / 2, x) \<in> measure (\<lambda>x. nat \<lfloor>x\<rfloor>)" by simp
qed simp

function doublings :: "real \<Rightarrow> int" where
  "doublings x = (if x \<le> 0 \<or> 1 \<le> x then 0 else doublings (2 * x) - 1)"
  by pat_completeness auto
termination
proof (relation "measure (\<lambda>x. nat \<lfloor>1 / x\<rfloor>)")
  fix x :: real
  assume "\<not> (x \<le> 0 \<or> 1 \<le> x)"
  then have x: "0 < x" "x < 1" by simp_all
  define t where "t = 1 / x"
  from x have t: "1 < t" by (simp add: t_def)
  then have "0 < \<lfloor>t\<rfloor>" by linarith
  moreover have "\<lfloor>t / 2\<rfloor> < \<lfloor>t\<rfloor>"
  proof (cases "t < 2")
    case True
    with t have "\<lfloor>t / 2\<rfloor> = 0" by (intro floor_unique) simp_all
    with \<open>0 < \<lfloor>t\<rfloor>\<close> show ?thesis by simp
  next
    case False
    then show ?thesis by linarith
  qed
  ultimately have "nat \<lfloor>t / 2\<rfloor> < nat \<lfloor>t\<rfloor>" by linarith
  then show "(2 * x, x) \<in> measure (\<lambda>x. nat \<lfloor>1 / x\<rfloor>)"
    unfolding t_def by (simp add: mult.commute)
qed simp

declare halvings.simps [simp del] doublings.simps [simp del]

definition ilog2 :: "real \<Rightarrow> int" where
  "ilog2 x = (if 1 \<le> x then halvings x else doublings x)"

definition rne :: "nat \<Rightarrow> real \<Rightarrow> real" where
  "rne p x =
     (if x = 0 then 0
      else (let u = 2 powi (ilog2 \<bar>x\<bar> - int p + 1) in u * of_int (round_even (x / u))))"

definition fl32 :: "real \<Rightarrow> real" where
  "fl32 = rne 24"

definition fl64 :: "real \<Rightarrow> real" where
  "fl64 = rne 53"

section \<open>The simulator in floating point\<close>

text \<open>
  The two variants again, with the rounding of each operation written out. The rounding
  functions are parameters: \<open>fl\<close> for the array arithmetic, \<open>fd\<close> for arithmetic on Python
  floats. The code runs with \<open>fl = fl32\<close> and \<open>fd = fl64\<close>; with the identity for both
  the definitions are the exact ones above.

  The arrays \<open>W\<close> and \<open>V\<close> are JAX arrays, as the signatures declare, so their
  elements are float32 values; a NumPy float64 array handed to the jitted step is
  converted on entry, and the model starts from the converted array. The scalar
  parameters are Python floats. Every elementwise operation rounds its exact result once
  (no fused multiply-add), and the dot product accumulates each row from left to right.
\<close>

text \<open>
  \<^verbatim>\<open>jnp.arange(start, stop, step)\<close>: the number of points is computed on float64 values,
  as the ceiling of the rounded quotient of the rounded difference. The loop uses the points
  only to count them.
\<close>

definition arange_r :: "(real \<Rightarrow> real) \<Rightarrow> real \<Rightarrow> real \<Rightarrow> real \<Rightarrow> error + real list" where
  "arange_r fd start stop step =
     (if step = 0 then Inl ZeroDivisionError
      else Inr (map (\<lambda>i. start + real i * step)
                  [0..<nat \<lceil>fd (fd (stop - start) / step)\<rceil>]))"

text \<open>\<^verbatim>\<open>W.dot(spiked)\<close>: every product and every partial sum is rounded.\<close>

definition dot_r :: "(real \<Rightarrow> real) \<Rightarrow> mat \<Rightarrow> mask \<Rightarrow> error + vec" where
  "dot_r fl W s =
     (if ncols W = length s
      then Inr (map (\<lambda>r. foldl (\<lambda>acc (w, b). fl (acc + fl (w * of_bool b))) 0 (zip r s)) (rows W))
      else Inl DimensionMismatch)"

text \<open>
  \<^verbatim>\<open>(dt / tau_m) * xs\<close> inside the jitted step, where \<open>dt\<close> and \<open>tau_m\<close> are float32
  scalars already: the division is a float32 division.
\<close>

definition jit_scale_r :: "(real \<Rightarrow> real) \<Rightarrow> real \<Rightarrow> real \<Rightarrow> vec \<Rightarrow> error + vec" where
  "jit_scale_r fl dt tau_m xs =
     (if tau_m = 0 then (if xs = [] then Inr [] else Inl NonFinite)
      else Inr (map (\<lambda>x. fl (fl (dt / tau_m) * x)) xs))"

text \<open>\<^verbatim>\<open>dt / tau_m\<close> on Python floats: a float64 division, which raises on 0.\<close>

definition py_div_r :: "(real \<Rightarrow> real) \<Rightarrow> real \<Rightarrow> real \<Rightarrow> error + real" where
  "py_div_r fd a b = (if b = 0 then Inl ZeroDivisionError else Inr (fd (a / b)))"

text \<open>
  \<^verbatim>\<open>run_step\<close> is jitted: its scalar arguments are converted to float32 when it is
  called, before anything is computed.
\<close>

definition run_step_r ::
  "(real \<Rightarrow> real) \<Rightarrow> vec \<Rightarrow> real \<Rightarrow> real \<Rightarrow> mat \<Rightarrow> real \<Rightarrow> real \<Rightarrow> real \<Rightarrow> error + (vec \<times> mask)" where
  "run_step_r fl v_prev v_thresh v_reset W tau_m dt membr_R =
     (let v_thresh = fl v_thresh; v_reset = fl v_reset; tau_m = fl tau_m; dt = fl dt;
          membr_R = fl membr_R;
          spiked = map (\<lambda>v. v \<ge> v_thresh) v_prev in
      bindE (jnp_where spiked v_reset v_prev) (\<lambda>V.
      bindE (dot_r fl W spiked) (\<lambda>I_syn.
      bindE (broadcast (\<lambda>a b. fl (a + b)) (map (\<lambda>v. fl (- v + v_reset)) V)
               (map (\<lambda>x. fl (membr_R * x)) I_syn)) (\<lambda>s.
      bindE (jit_scale_r fl dt tau_m s) (\<lambda>dV.
      bindE (broadcast (\<lambda>a b. fl (a + b)) V dV) (\<lambda>V.
      bindE (jnp_where spiked v_reset V) (\<lambda>V.
      Inr (V, spiked))))))))"

text \<open>The first \<^verbatim>\<open>run_simulation\<close>.\<close>

fun run_loop_r ::
  "(real \<Rightarrow> real) \<Rightarrow> mat \<Rightarrow> real \<Rightarrow> real \<Rightarrow> real \<Rightarrow> real \<Rightarrow> real \<Rightarrow> (nat \<times> real) list \<Rightarrow> vec
     \<Rightarrow> mask list \<Rightarrow> error + (vec \<times> mask list)" where
  "run_loop_r fl W tau_m v_reset v_thresh membr_R dt [] V spike_train = Inr (V, spike_train)"
| "run_loop_r fl W tau_m v_reset v_thresh membr_R dt ((i, t) # its) V spike_train =
     (if i = 0 then run_loop_r fl W tau_m v_reset v_thresh membr_R dt its V spike_train
      else (case run_step_r fl V v_thresh v_reset W tau_m dt membr_R of
              Inl e \<Rightarrow> Inl e
            | Inr (V', spiked) \<Rightarrow>
                run_loop_r fl W tau_m v_reset v_thresh membr_R dt its V' (spike_train @ [spiked])))"

definition run_simulation_r ::
  "(real \<Rightarrow> real) \<Rightarrow> (real \<Rightarrow> real) \<Rightarrow> mat \<Rightarrow> vec \<Rightarrow> real \<Rightarrow> real \<Rightarrow> real \<Rightarrow> real \<Rightarrow> real \<Rightarrow> real
     \<Rightarrow> error + mask list" where
  "run_simulation_r fl fd W V tau_m v_reset v_thresh membr_R t_max dt =
     (case arange_r fd 0 t_max dt of
        Inl e \<Rightarrow> Inl e
      | Inr ts \<Rightarrow>
          (case run_loop_r fl W tau_m v_reset v_thresh membr_R dt (enumerate 0 ts) V [] of
             Inl e \<Rightarrow> Inl e
           | Inr (V', spike_train) \<Rightarrow> Inr spike_train))"


text \<open>
  The second \<^verbatim>\<open>run_simulation\<close> is not jitted. A Python float that meets a float32
  array in an operation is converted to float32 in that operation; \<^verbatim>\<open>dt / tau_m\<close> is
  computed on the two Python floats first, and its float64 result is converted when it is
  multiplied with the array.
\<close>

fun run_loop2_r ::
  "(real \<Rightarrow> real) \<Rightarrow> (real \<Rightarrow> real) \<Rightarrow> mat \<Rightarrow> real \<Rightarrow> real \<Rightarrow> real \<Rightarrow> real \<Rightarrow> real
     \<Rightarrow> (nat \<times> real) list \<Rightarrow> vec \<Rightarrow> mask list \<Rightarrow> error + (vec \<times> mask list)" where
  "run_loop2_r fl fd W tau_m v_reset v_thresh membr_R dt [] V spike_train = Inr (V, spike_train)"
| "run_loop2_r fl fd W tau_m v_reset v_thresh membr_R dt ((i, t) # its) V spike_train =
     (if i = 0 then run_loop2_r fl fd W tau_m v_reset v_thresh membr_R dt its V spike_train
      else
        (let fired = map (\<lambda>v. v \<ge> fl v_thresh) V in
         bindE (jnp_where fired (fl v_reset) V) (\<lambda>V1.
         (let spike_train1 = spike_train @ [fired] in
          bindE (dot_r fl W (last spike_train1)) (\<lambda>I_syn.
          bindE (py_div_r fd dt tau_m) (\<lambda>q.
          bindE (broadcast (\<lambda>a b. fl (a + b)) (map (\<lambda>v. fl (- v + fl v_reset)) V1)
                   (map (\<lambda>x. fl (fl membr_R * x)) I_syn)) (\<lambda>s.
          (let dV = map (\<lambda>x. fl (fl q * x)) s in
           bindE (broadcast (\<lambda>a b. fl (a + b)) V1 dV) (\<lambda>V2.
           bindE (jnp_where fired (fl v_reset) V2) (\<lambda>V3.
             run_loop2_r fl fd W tau_m v_reset v_thresh membr_R dt its V3 spike_train1))))))))))"

definition run_simulation2_r ::
  "(real \<Rightarrow> real) \<Rightarrow> (real \<Rightarrow> real) \<Rightarrow> mat \<Rightarrow> vec \<Rightarrow> real \<Rightarrow> real \<Rightarrow> real \<Rightarrow> real \<Rightarrow> real \<Rightarrow> real
     \<Rightarrow> error + mask list" where
  "run_simulation2_r fl fd W V tau_m v_reset v_thresh membr_R t_max dt =
     (case arange_r fd 0 t_max dt of
        Inl e \<Rightarrow> Inl e
      | Inr ts \<Rightarrow>
          (case run_loop2_r fl fd W tau_m v_reset v_thresh membr_R dt (enumerate 0 ts) V [] of
             Inl e \<Rightarrow> Inl e
           | Inr (V', spike_train) \<Rightarrow> Inr spike_train))"

subsection \<open>The loop in closed form\<close>

text \<open>
  For the proofs: the step on \<open>n\<close> potentials and an \<open>n \<times> n\<close> matrix as one map, with the
  rounded quotient \<open>q\<close>, threshold, reset value and resistance as they enter the
  arithmetic, and the loop that iterates it. Both variants are this loop, each with its
  own \<open>q\<close>.
\<close>

definition step_q :: "(real \<Rightarrow> real) \<Rightarrow> real \<Rightarrow> real \<Rightarrow> real \<Rightarrow> real \<Rightarrow> mat \<Rightarrow> vec \<Rightarrow> vec" where
  "step_q fl q th vr R W V =
     map2 (\<lambda>v r. if v \<ge> th then vr
                 else fl (v + fl (q * fl (fl (- v + vr)
                  + fl (R * foldl (\<lambda>acc (w, b). fl (acc + fl (w * of_bool b))) 0
                          (zip r (map (\<lambda>v. v \<ge> th) V)))))))
       V (rows W)"

fun loop_q ::
  "(real \<Rightarrow> real) \<Rightarrow> real \<Rightarrow> real \<Rightarrow> real \<Rightarrow> real \<Rightarrow> mat \<Rightarrow> (nat \<times> real) list \<Rightarrow> vec \<Rightarrow> mask list
     \<Rightarrow> vec \<times> mask list" where
  "loop_q fl q th vr R W [] V tr = (V, tr)"
| "loop_q fl q th vr R W ((i, t) # its) V tr =
     (if i = 0 then loop_q fl q th vr R W its V tr
      else loop_q fl q th vr R W its (step_q fl q th vr R W V) (tr @ [map (\<lambda>v. v \<ge> th) V]))"

section \<open>Shapes that fit: the step in closed form\<close>

lemma broadcast_same:
  "length xs = length ys \<Longrightarrow> broadcast f xs ys = Inr (map2 f xs ys)"
  by (simp add: broadcast_def)

lemma jnp_where_same:
  "length c = length ys \<Longrightarrow> jnp_where c x ys = Inr (map2 (\<lambda>b y. if b then x else y) c ys)"
  by (simp add: jnp_where_def broadcast_same)

lemma dot_cols:
  "ncols W = length s \<Longrightarrow>
   dot W s = Inr (map (\<lambda>r. sum_list (map2 (\<lambda>w b. w * of_bool b) r s)) (rows W))"
  by (simp add: dot_def)



lemma run_step_dV_square:
  assumes sq: "square n W" and len: "length V = n" and tau: "tau_m \<noteq> 0"
  shows "run_step_dV V v_thresh v_reset W tau_m dt membr_R =
     Inr (map (\<lambda>v. v \<ge> v_thresh) V,
          map (\<lambda>v. if v \<ge> v_thresh then v_reset else v) V,
          map2 (\<lambda>v r. (dt / tau_m) * (- (if v \<ge> v_thresh then v_reset else v) + v_reset
                  + membr_R * sum_list (map2 (\<lambda>w b. w * of_bool b) r (map (\<lambda>v. v \<ge> v_thresh) V))))
            V (rows W))"
proof -
  have c: "ncols W = length (map (\<lambda>v. v \<ge> v_thresh) V)" and r: "length (rows W) = length V"
    using sq len by (simp_all add: square_def nrows_def)
  show ?thesis
    unfolding run_step_dV_def Let_def
    using r tau
    by (simp add: jnp_where_same dot_cols [OF c] broadcast_same bindE_def jit_scale_def
        zip_map1 zip_map2 zip_same_conv_map map2_map_map split_def o_def)
qed

lemma run_step_square:
  assumes sq: "square n W" and len: "length V = n" and tau: "tau_m \<noteq> 0"
  shows "run_step V v_thresh v_reset W tau_m dt membr_R =
     Inr (map2 (\<lambda>v r. if v \<ge> v_thresh then v_reset
                 else v + (dt / tau_m) * (- v + v_reset
                  + membr_R * sum_list (map2 (\<lambda>w b. w * of_bool b) r (map (\<lambda>v. v \<ge> v_thresh) V))))
            V (rows W),
          map (\<lambda>v. v \<ge> v_thresh) V)"
proof -
  have r: "length (rows W) = length V"
    using sq len by (simp add: square_def nrows_def)
  show ?thesis
    unfolding run_step_def run_step_dV_square [OF sq len tau]
    using r
    by (simp add: bindE_def broadcast_same jnp_where_same zip_map1 zip_map2 zip_same_conv_map
        map2_map_map split_def o_def zip_assoc)
qed

section \<open>The loop\<close>

lemma run_loop_append:
  "run_loop W tau_m v_reset v_thresh membr_R dt (xs @ ys) V tr =
     (case run_loop W tau_m v_reset v_thresh membr_R dt xs V tr of
        Inl e \<Rightarrow> Inl e
      | Inr (V', tr') \<Rightarrow> run_loop W tau_m v_reset v_thresh membr_R dt ys V' tr')"
  by (induction xs arbitrary: V tr) (auto split: sum.splits)

lemma recorded_simps [simp]:
  "recorded [] = 0"
  "recorded ((i, t) # its) = (if i = 0 then recorded its else Suc (recorded its))"
  by (simp_all add: recorded_def)

lemma recorded_enumerate: "recorded (enumerate 0 ts) = length ts - 1"
proof (cases ts)
  case Nil
  then show ?thesis by simp
next
  case (Cons t ts')
  have "filter (\<lambda>p. fst p \<noteq> 0) (enumerate (Suc 0) ts') = enumerate (Suc 0) ts'"
    by (rule filter_True) (auto simp: in_set_enumerate_eq)
  then show ?thesis
    using Cons by (simp add: recorded_def)
qed

lemma run_loop_train:
  "run_loop W tau_m v_reset v_thresh membr_R dt its V tr = Inr (V', tr') \<Longrightarrow>
   \<exists>new. tr' = tr @ new \<and> length new = recorded its"
proof (induction its arbitrary: V tr)
  case Nil
  then show ?case by simp
next
  case (Cons p its)
  obtain i t where p: "p = (i, t)" by (cases p)
  show ?case
  proof (cases "i = 0")
    case True
    with Cons p show ?thesis by simp
  next
    case False
    with Cons.prems p obtain V1 spiked where
      "run_loop W tau_m v_reset v_thresh membr_R dt its V1 (tr @ [spiked]) = Inr (V', tr')"
      by (auto split: sum.splits)
    from Cons.IH [OF this] obtain new where "tr' = (tr @ [spiked]) @ new" "length new = recorded its"
      by blast
    then have "tr' = tr @ (spiked # new) \<and> length (spiked # new) = recorded (p # its)"
      using False p by simp
    then show ?thesis by blast
  qed
qed

lemma run_loop_square:
  assumes "square n W" and "tau_m \<noteq> 0"
  shows "length V = n \<Longrightarrow>
    \<exists>V' new. run_loop W tau_m v_reset v_thresh membr_R dt its V tr = Inr (V', tr @ new)
       \<and> length V' = n \<and> length new = recorded its"
proof (induction its arbitrary: V tr)
  case Nil
  then show ?case by simp
next
  case (Cons p its)
  obtain i t where p: "p = (i, t)" by (cases p)
  show ?case
  proof (cases "i = 0")
    case True
    with Cons p show ?thesis by simp
  next
    case False
    let ?V1 = "map2 (\<lambda>v r. if v \<ge> v_thresh then v_reset
                 else v + (dt / tau_m) * (- v + v_reset
                  + membr_R * sum_list (map2 (\<lambda>w b. w * of_bool b) r (map (\<lambda>v. v \<ge> v_thresh) V))))
            V (rows W)"
    let ?s = "map (\<lambda>v. v \<ge> v_thresh) V"
    have st: "run_step V v_thresh v_reset W tau_m dt membr_R = Inr (?V1, ?s)"
      by (rule run_step_square [OF assms(1) Cons.prems assms(2)])
    have "length ?V1 = n"
      using assms(1) Cons.prems by (simp add: square_def nrows_def)
    from Cons.IH [OF this, of "tr @ [?s]"] obtain V' new where
      "run_loop W tau_m v_reset v_thresh membr_R dt its ?V1 (tr @ [?s]) = Inr (V', (tr @ [?s]) @ new)"
      "length V' = n" "length new = recorded its"
      by blast
    then have "run_loop W tau_m v_reset v_thresh membr_R dt (p # its) V tr = Inr (V', tr @ (?s # new))
        \<and> length V' = n \<and> length (?s # new) = recorded (p # its)"
      using False p st by simp
    then show ?thesis by blast
  qed
qed

lemma arange_pos:
  "dt \<noteq> 0 \<Longrightarrow> \<exists>ts. arange 0 t_max dt = Inr ts \<and> length ts = nat \<lceil>t_max / dt\<rceil>"
  by (simp add: arange_def)



lemma take_enumerate: "take m (enumerate j xs) = enumerate j (take m xs)"
  by (simp add: enumerate_eq_zip take_zip min_def)

lemma recorded_take_enumerate:
  "recorded (take m (enumerate 0 ts)) = min m (length ts) - 1"
  by (simp add: take_enumerate recorded_enumerate min.commute)

lemma run_upto_0:
  assumes "arange 0 t_max dt = Inr ts"
  shows "run_upto W V tau_m v_reset v_thresh membr_R t_max dt 0 = Inr (V, [])"
proof (cases ts)
  case Nil
  with assms show ?thesis by (simp add: run_upto_def)
next
  case (Cons t ts')
  with assms show ?thesis by (simp add: run_upto_def)
qed

lemma run_upto_Suc:
  assumes "arange 0 t_max dt = Inr ts" and "Suc k < length ts"
  shows "run_upto W V tau_m v_reset v_thresh membr_R t_max dt (Suc k) =
     (case run_upto W V tau_m v_reset v_thresh membr_R t_max dt k of
        Inl e \<Rightarrow> Inl e
      | Inr (V1, tr1) \<Rightarrow>
          (case run_step V1 v_thresh v_reset W tau_m dt membr_R of
             Inl e \<Rightarrow> Inl e
           | Inr (V', spiked) \<Rightarrow> Inr (V', tr1 @ [spiked])))"
proof -
  have "take (Suc (Suc k)) (enumerate 0 ts) = take (Suc k) (enumerate 0 ts) @ [(Suc k, ts ! Suc k)]"
    using assms(2) by (simp add: take_Suc_conv_app_nth [of "Suc k"] nth_enumerate_eq)
  then show ?thesis
    using assms(1)
    by (simp add: run_upto_def run_loop_append split: sum.splits prod.splits)
qed

lemma run_upto_prefix:
  assumes "run_simulation W V tau_m v_reset v_thresh membr_R t_max dt = Inr train"
    and "k \<le> length train"
  shows "\<exists>V'. run_upto W V tau_m v_reset v_thresh membr_R t_max dt k = Inr (V', take k train)"
proof -
  from assms(1) obtain ts Vf where ts: "arange 0 t_max dt = Inr ts"
    and l: "run_loop W tau_m v_reset v_thresh membr_R dt (enumerate 0 ts) V [] = Inr (Vf, train)"
    by (auto simp: run_simulation_def split: sum.splits)
  let ?its = "enumerate 0 ts"
  have len: "length train = length ts - 1"
    using run_loop_train [OF l] by (auto simp: recorded_enumerate)
  have "run_loop W tau_m v_reset v_thresh membr_R dt (take (Suc k) ?its @ drop (Suc k) ?its) V []
      = Inr (Vf, train)"
    using l by simp
  then obtain V' tr' where
    a: "run_loop W tau_m v_reset v_thresh membr_R dt (take (Suc k) ?its) V [] = Inr (V', tr')"
    and b: "run_loop W tau_m v_reset v_thresh membr_R dt (drop (Suc k) ?its) V' tr' = Inr (Vf, train)"
    unfolding run_loop_append by (auto split: sum.splits)
  from run_loop_train [OF a] have "length tr' = min (Suc k) (length ts) - 1"
    by (auto simp: recorded_take_enumerate)
  with assms(2) len have "length tr' = k" by auto
  moreover from run_loop_train [OF b] obtain new where "train = tr' @ new" by blast
  ultimately have "tr' = take k train" by simp
  with a ts show ?thesis by (simp add: run_upto_def)
qed







lemma run_simulation_square:
  assumes "square n W" and "length V = n" and "tau_m \<noteq> 0" and "dt \<noteq> 0"
  shows "\<exists>train. run_simulation W V tau_m v_reset v_thresh membr_R t_max dt = Inr train
            \<and> length train = nat \<lceil>t_max / dt\<rceil> - 1"
proof -
  from assms(4) obtain ts where ts: "arange 0 t_max dt = Inr ts" "length ts = nat \<lceil>t_max / dt\<rceil>"
    using arange_pos [of dt t_max] by auto
  from run_loop_square [OF assms(1,3,2), of v_reset v_thresh membr_R dt "enumerate 0 ts" "[]"]
  show ?thesis
    using ts by (auto simp: run_simulation_def recorded_enumerate)
qed

lemma ceiling_ge_2:
  fixes t_max dt :: real
  assumes "0 < dt" and "dt < t_max"
  shows "2 \<le> nat \<lceil>t_max / dt\<rceil>"
proof -
  from assms have "1 < t_max / dt" by simp
  then have "1 < \<lceil>t_max / dt\<rceil>" by linarith
  then show ?thesis by linarith
qed

section \<open>Shapes that do not fit\<close>

lemma run_step_mismatch:
  assumes "ncols W \<noteq> length V \<or> (nrows W \<noteq> length V \<and> nrows W \<noteq> 1 \<and> length V \<noteq> 1)"
  shows "run_step V v_thresh v_reset W tau_m dt membr_R = Inl DimensionMismatch"
proof (cases "ncols W = length V")
  case False
  then show ?thesis
    by (simp add: run_step_def run_step_dV_def bindE_def jnp_where_same dot_def)
next
  case True
  with assms have "nrows W \<noteq> length V" "nrows W \<noteq> 1" "length V \<noteq> 1" by simp_all
  then have "broadcast (+) (map (\<lambda>v. - v + v_reset) (map2 (\<lambda>b y. if b then v_reset else y) (map (\<lambda>v. v \<ge> v_thresh) V) V))
      (map (\<lambda>x. membr_R * x) (map (\<lambda>r. sum_list (map2 (\<lambda>w b. w * of_bool b) r (map (\<lambda>v. v \<ge> v_thresh) V))) (rows W)))
    = Inl DimensionMismatch"
    by (simp add: broadcast_def nrows_def)
  then show ?thesis
    using True
    by (simp add: run_step_def run_step_dV_def bindE_def jnp_where_same dot_def)
qed

section \<open>The store: what a call leaves untouched\<close>

lemma keeps_ret: "Q x \<Longrightarrow> keeps h0 (ret x) Q"
  by (simp add: keeps_def ret_def)

lemma keeps_raise: "keeps h0 (raise e) Q"
  by (simp add: keeps_def raise_def)

lemma keeps_lift: "keeps h0 (lift r) (\<lambda>_. True)"
  by (simp add: keeps_def lift_def split: sum.splits)

lemma keeps_bind:
  assumes "keeps h0 m P" and "\<And>x. P x \<Longrightarrow> keeps h0 (f x) Q"
  shows "keeps h0 (bindS m f) Q"
  unfolding keeps_def
proof (intro allI impI)
  fix h assume p: "prefix h0 h"
  obtain r h1 where m: "m h = (r, h1)" by (cases "m h")
  with assms(1) p have p1: "prefix h0 h1" and r: "case r of Inl e \<Rightarrow> True | Inr x \<Rightarrow> P x"
    by (auto simp: keeps_def)
  show "case bindS m f h of (r, h') \<Rightarrow> prefix h0 h' \<and> (case r of Inl e \<Rightarrow> True | Inr x \<Rightarrow> Q x)"
  proof (cases r)
    case (Inl e)
    with m p1 show ?thesis by (simp add: bindS_def)
  next
    case (Inr x)
    with r have "P x" by simp
    from assms(2) [OF this] p1 have
      "case f x h1 of (r, h') \<Rightarrow> prefix h0 h' \<and> (case r of Inl e \<Rightarrow> True | Inr x \<Rightarrow> Q x)"
      by (simp add: keeps_def)
    with m Inr show ?thesis by (simp add: bindS_def)
  qed
qed

lemma keeps_weaken:
  "keeps h0 m P \<Longrightarrow> (\<And>x. P x \<Longrightarrow> Q x) \<Longrightarrow> keeps h0 m Q"
  by (fastforce simp: keeps_def split: sum.splits prod.splits)

lemma keeps_new: "keeps h0 (new x) (\<lambda>r. length h0 \<le> r)"
  by (auto simp: keeps_def new_def prefix_length_le)

lemma keeps_deref: "keeps h0 (deref r) (\<lambda>_. True)"
  by (simp add: keeps_def deref_def)

lemma keeps_put_obj: "length h0 \<le> r \<Longrightarrow> keeps h0 (put_obj r x) (\<lambda>_. True)"
  by (auto simp: keeps_def put_obj_def prefix_def list_update_append)

lemma keeps_float_at: "keeps h0 (float_at r) (\<lambda>_. True)"
  unfolding float_at_def
  by (rule keeps_bind [OF keeps_deref]) (auto intro: keeps_ret keeps_raise split: obj.splits)

lemma keeps_bool_at: "keeps h0 (bool_at r) (\<lambda>_. True)"
  unfolding bool_at_def
  by (rule keeps_bind [OF keeps_deref]) (auto intro: keeps_ret keeps_raise split: obj.splits)

lemma keeps_mat_at: "keeps h0 (mat_at r) (\<lambda>_. True)"
  unfolding mat_at_def
  by (rule keeps_bind [OF keeps_deref]) (auto intro: keeps_ret keeps_raise split: obj.splits)

lemma keeps_list_at: "keeps h0 (list_at r) (\<lambda>_. True)"
  unfolding list_at_def
  by (rule keeps_bind [OF keeps_deref]) (auto intro: keeps_ret keeps_raise split: obj.splits)

lemma keeps_ge_op: "keeps h0 (ge_op V c) (\<lambda>r. length h0 \<le> r)"
  unfolding ge_op_def
  by (rule keeps_bind [OF keeps_float_at]) (auto intro: keeps_new)

lemma keeps_neg_op: "keeps h0 (neg_op V) (\<lambda>r. length h0 \<le> r)"
  unfolding neg_op_def
  by (rule keeps_bind [OF keeps_float_at]) (auto intro: keeps_new)

lemma keeps_add_scalar_op: "keeps h0 (add_scalar_op V c) (\<lambda>r. length h0 \<le> r)"
  unfolding add_scalar_op_def
  by (rule keeps_bind [OF keeps_float_at]) (auto intro: keeps_new)

lemma keeps_rmul_scalar_op: "keeps h0 (rmul_scalar_op c V) (\<lambda>r. length h0 \<le> r)"
  unfolding rmul_scalar_op_def
  by (rule keeps_bind [OF keeps_float_at]) (auto intro: keeps_new)

lemma keeps_where_op: "keeps h0 (where_op c x V) (\<lambda>r. length h0 \<le> r)"
  unfolding where_op_def
  by (rule keeps_bind [OF keeps_bool_at], clarify,
      rule keeps_bind [OF keeps_float_at], clarify,
      rule keeps_bind [OF keeps_lift], rule keeps_new)

lemma keeps_dot_op: "keeps h0 (dot_op W s) (\<lambda>r. length h0 \<le> r)"
  unfolding dot_op_def
  by (rule keeps_bind [OF keeps_mat_at], clarify,
      rule keeps_bind [OF keeps_bool_at], clarify,
      rule keeps_bind [OF keeps_lift], rule keeps_new)

lemma keeps_add_op: "keeps h0 (add_op a b) (\<lambda>r. length h0 \<le> r)"
  unfolding add_op_def
  by (rule keeps_bind [OF keeps_float_at], clarify,
      rule keeps_bind [OF keeps_float_at], clarify,
      rule keeps_bind [OF keeps_lift], rule keeps_new)

lemma keeps_iadd_op:
  assumes "length h0 \<le> a"
  shows "keeps h0 (iadd_op a b) (\<lambda>r. length h0 \<le> r)"
  unfolding iadd_op_def
proof (rule keeps_bind [OF keeps_float_at], clarify, rule keeps_bind [OF keeps_float_at], clarify)
  fix ka :: kind and xs kb and ys :: vec
  show "keeps h0
          (case ka of
             Numpy \<Rightarrow>
               if length ys = length xs \<or> length ys = 1
               then bindS (lift (broadcast (+) xs ys))
                      (\<lambda>r. bindS (put_obj a (FloatArr Numpy r)) (\<lambda>_. ret a))
               else raise DimensionMismatch
           | Jax \<Rightarrow> bindS (lift (broadcast (+) xs ys)) (\<lambda>r. new (FloatArr Jax r)))
          (\<lambda>r. length h0 \<le> r)"
  proof (cases ka)
    case Numpy
    have "keeps h0 (bindS (lift (broadcast (+) xs ys))
                      (\<lambda>r. bindS (put_obj a (FloatArr Numpy r)) (\<lambda>_. ret a))) (\<lambda>r. length h0 \<le> r)"
      by (rule keeps_bind [OF keeps_lift], rule keeps_bind [OF keeps_put_obj [OF assms]],
          rule keeps_ret, rule assms)
    with Numpy show ?thesis by (simp add: keeps_raise)
  next
    case Jax
    then show ?thesis
      by (simp, intro keeps_bind [OF keeps_lift] keeps_new)
  qed
qed

lemma keeps_append_op: "length h0 \<le> l \<Longrightarrow> keeps h0 (append_op l x) (\<lambda>_. True)"
  unfolding append_op_def
  by (rule keeps_bind [OF keeps_list_at]) (rule keeps_put_obj)

lemma keeps_last_op: "keeps h0 (last_op l) (\<lambda>_. True)"
  unfolding last_op_def
  by (rule keeps_bind [OF keeps_list_at]) (auto intro: keeps_ret keeps_raise)

lemma keeps_run_step_st:
  "keeps h0 (run_step_st v_prev v_thresh v_reset W tau_m dt membr_R) (\<lambda>_. True)"
  unfolding run_step_st_def
  by (rule keeps_bind [OF keeps_float_at], clarify,
      rule keeps_bind [OF keeps_mat_at], clarify,
      rule keeps_bind [OF keeps_lift], clarify,
      rule keeps_bind [OF keeps_new],
      rule keeps_bind [OF keeps_new],
      rule keeps_ret, simp)

lemma keeps_run_loop_st:
  assumes "length h0 \<le> spike_train"
  shows "keeps h0 (run_loop_st W tau_m v_reset v_thresh membr_R dt its V spike_train)
           (\<lambda>r. length h0 \<le> r)"
proof (induction its arbitrary: V)
  case Nil
  show ?case by (simp add: keeps_ret assms)
next
  case (Cons p its)
  obtain i t where p: "p = (i, t)" by (cases p)
  show ?case
  proof (cases "i = 0")
    case True
    with Cons p show ?thesis by simp
  next
    case False
    have "keeps h0
        (bindS (run_step_st V v_thresh v_reset W tau_m dt membr_R) (\<lambda>(V', spiked).
         bindS (append_op spike_train spiked) (\<lambda>_.
           run_loop_st W tau_m v_reset v_thresh membr_R dt its V' spike_train)))
        (\<lambda>r. length h0 \<le> r)"
      by (rule keeps_bind [OF keeps_run_step_st], clarify,
          rule keeps_bind [OF keeps_append_op [OF assms]], rule Cons.IH)
    with False p show ?thesis by simp
  qed
qed

lemma keeps_run_loop2_st:
  assumes "length h0 \<le> spike_train"
  shows "keeps h0 (run_loop2_st W tau_m v_reset v_thresh membr_R dt its V spike_train)
           (\<lambda>r. length h0 \<le> r)"
proof (induction its arbitrary: V)
  case Nil
  show ?case by (simp add: keeps_ret assms)
next
  case (Cons p its)
  obtain i t where p: "p = (i, t)" by (cases p)
  show ?case
  proof (cases "i = 0")
    case True
    with Cons p show ?thesis by simp
  next
    case False
    have "keeps h0
       (bindS (ge_op V v_thresh) (\<lambda>fired.
        bindS (where_op fired v_reset V) (\<lambda>V1.
        bindS (append_op spike_train fired) (\<lambda>_.
        bindS (last_op spike_train) (\<lambda>s.
        bindS (dot_op W s) (\<lambda>I_syn.
        bindS (lift (py_div dt tau_m)) (\<lambda>q.
        bindS (neg_op V1) (\<lambda>a.
        bindS (add_scalar_op a v_reset) (\<lambda>b.
        bindS (rmul_scalar_op membr_R I_syn) (\<lambda>c.
        bindS (add_op b c) (\<lambda>d.
        bindS (rmul_scalar_op q d) (\<lambda>dV.
        bindS (iadd_op V1 dV) (\<lambda>V2.
        bindS (where_op fired v_reset V2) (\<lambda>V3.
          run_loop2_st W tau_m v_reset v_thresh membr_R dt its V3 spike_train))))))))))))))
        (\<lambda>r. length h0 \<le> r)"
      by (rule keeps_bind [OF keeps_ge_op],
          rule keeps_bind [OF keeps_where_op],
          rule keeps_bind [OF keeps_append_op [OF assms]],
          rule keeps_bind [OF keeps_last_op],
          rule keeps_bind [OF keeps_dot_op],
          rule keeps_bind [OF keeps_lift],
          rule keeps_bind [OF keeps_neg_op],
          rule keeps_bind [OF keeps_add_scalar_op],
          rule keeps_bind [OF keeps_rmul_scalar_op],
          rule keeps_bind [OF keeps_add_op],
          rule keeps_bind [OF keeps_rmul_scalar_op],
          rule keeps_bind [OF keeps_iadd_op], assumption,
          rule keeps_bind [OF keeps_where_op],
          rule Cons.IH)
    with False p show ?thesis by simp
  qed
qed

lemma keeps_run_simulation_st:
  "keeps h (run_simulation_st W V tau_m v_reset v_thresh membr_R t_max dt) (\<lambda>r. length h \<le> r)"
  unfolding run_simulation_st_def
  by (rule keeps_bind [OF keeps_new], rule keeps_bind [OF keeps_lift],
      rule keeps_bind [OF keeps_new], rule keeps_run_loop_st)

lemma keeps_run_simulation2_st:
  "keeps h (run_simulation2_st W V tau_m v_reset v_thresh membr_R t_max dt) (\<lambda>r. length h \<le> r)"
  unfolding run_simulation2_st_def
  by (rule keeps_bind [OF keeps_new], rule keeps_bind [OF keeps_lift],
      rule keeps_bind [OF keeps_new], rule keeps_run_loop2_st)

section \<open>The store: agreement with the functions on values\<close>

lemma holds_train_masks: "holds_train h l tr \<Longrightarrow> masks_of h l = tr"
  by (auto simp: holds_train_def masks_of_def list_eq_iff_nth_eq)

lemma run_step_st_exec:
  assumes "V < length h" "h ! V = FloatArr kv v" "W < length h" "h ! W = MatArr kw w"
  shows "run_step_st V v_thresh v_reset W tau_m dt membr_R h =
     (case run_step v v_thresh v_reset w tau_m dt membr_R of
        Inl e \<Rightarrow> (Inl e, h)
      | Inr (V', spiked) \<Rightarrow>
          (Inr (length h, Suc (length h)), h @ [FloatArr Jax V', BoolArr Jax spiked]))"
  using assms
  by (simp add: run_step_st_def bindS_def float_at_def mat_at_def deref_def ret_def lift_def
      new_def split: sum.splits)

lemma append_op_exec:
  assumes "l < length h" "h ! l = PyList rs"
  shows "append_op l x h = (Inr (), h[l := PyList (rs @ [x])])"
  using assms
  by (simp add: append_op_def bindS_def list_at_def deref_def ret_def put_obj_def)

lemma holds_train_append:
  assumes tr: "holds_train h l tr" and rs: "h ! l = PyList rs"
    and x: "x < length h" "h ! x = BoolArr k m"
  shows "holds_train (h[l := PyList (rs @ [x])]) l (tr @ [m])"
proof -
  from tr rs have l: "l < length h" and len: "length rs = length tr"
    and el: "\<forall>j<length rs. rs ! j < length h \<and> (\<exists>k. h ! (rs ! j) = BoolArr k (tr ! j))"
    by (auto simp: holds_train_def)
  have ne: "rs ! j \<noteq> l" if "j < length rs" for j
    using el that rs by auto
  have "x \<noteq> l" using x rs by auto
  then show ?thesis
    unfolding holds_train_def
    using l len el ne x
    by (auto simp: nth_append nth_list_update less_Suc_eq)
qed

lemma holds_train_extend:
  "holds_train h l tr \<Longrightarrow> holds_train (h @ xs) l tr"
  by (fastforce simp: holds_train_def nth_append)

lemma run_loop_st_refines:
  assumes W: "W < length h0" "h0 ! W = MatArr kw w"
  shows "V < length h \<Longrightarrow> h ! V = FloatArr kv v \<Longrightarrow> prefix h0 h \<Longrightarrow> holds_train h l tr \<Longrightarrow>
     length h0 \<le> l \<Longrightarrow>
     refined (run_loop_st W tau_m v_reset v_thresh membr_R dt its V l h) l
       (run_loop w tau_m v_reset v_thresh membr_R dt its v tr)"
proof (induction its arbitrary: h V kv v tr)
  case Nil
  then show ?case by (simp add: ret_def refined_def)
next
  case (Cons p its)
  obtain i t where p: "p = (i, t)" by (cases p)
  from Cons.prems(3) W have Wh: "W < length h" "h ! W = MatArr kw w"
    by (auto simp: prefix_def nth_append)
  from Cons.prems(4) obtain rs where l: "l < length h" and rs: "h ! l = PyList rs"
    by (auto simp: holds_train_def)
  show ?case
  proof (cases "i = 0")
    case True
    have "run_loop w tau_m v_reset v_thresh membr_R dt (p # its) v tr
        = run_loop w tau_m v_reset v_thresh membr_R dt its v tr"
      and "run_loop_st W tau_m v_reset v_thresh membr_R dt (p # its) V l h
        = run_loop_st W tau_m v_reset v_thresh membr_R dt its V l h"
      using True p by simp_all
    then show ?thesis
      using Cons.IH [OF Cons.prems(1-4)] Cons.prems(5) by simp
  next
    case False
    have pure: "run_loop w tau_m v_reset v_thresh membr_R dt (p # its) v tr
        = (case run_step v v_thresh v_reset w tau_m dt membr_R of
              Inl e \<Rightarrow> Inl e
            | Inr (V', spiked) \<Rightarrow>
                run_loop w tau_m v_reset v_thresh membr_R dt its V' (tr @ [spiked]))"
      using False p by simp
    show ?thesis
    proof (cases "run_step v v_thresh v_reset w tau_m dt membr_R")
      case (Inl e)
      have "run_loop_st W tau_m v_reset v_thresh membr_R dt (p # its) V l h = (Inl e, h)"
        using False p Inl by (simp add: bindS_def run_step_st_exec [OF Cons.prems(1,2) Wh])
      then show ?thesis
        unfolding pure by (simp add: Inl refined_def)
    next
      case (Inr r)
      obtain v' spiked where r: "r = (v', spiked)" by (cases r)
      let ?h1 = "h @ [FloatArr Jax v', BoolArr Jax spiked]"
      let ?h2 = "?h1[l := PyList (rs @ [Suc (length h)])]"
      have st: "run_step_st V v_thresh v_reset W tau_m dt membr_R h
          = (Inr (length h, Suc (length h)), ?h1)"
        using Inr r by (simp add: run_step_st_exec [OF Cons.prems(1,2) Wh])
      have l1: "l < length ?h1" "?h1 ! l = PyList rs"
        using l rs by (simp_all add: nth_append)
      have ap: "append_op l (Suc (length h)) ?h1 = (Inr (), ?h2)"
        by (rule append_op_exec [OF l1])
      have eq: "run_loop_st W tau_m v_reset v_thresh membr_R dt (p # its) V l h
          = run_loop_st W tau_m v_reset v_thresh membr_R dt its (length h) l ?h2"
        using False p by (simp add: bindS_def st ap)
      have a: "length h < length ?h2" "?h2 ! length h = FloatArr Jax v'"
        using l by (simp_all add: nth_list_update nth_append)
      have b: "prefix h0 ?h2"
        using Cons.prems(3,5) l
        by (auto simp: prefix_def list_update_append)
      have c: "holds_train ?h2 l (tr @ [spiked])"
        by (rule holds_train_append [OF holds_train_extend [OF Cons.prems(4)] l1(2)])
          (simp_all add: nth_append)
      from Cons.IH [OF a b c] Cons.prems(5) show ?thesis
        unfolding eq pure by (simp add: Inr r)
    qed
  qed
qed

lemma refined_Inl: "refined (Inl e, h) l (Inl e)"
  by (simp add: refined_def)

lemma prefix_update_append:
  "prefix h0 h \<Longrightarrow> length h0 \<le> l \<Longrightarrow> prefix h0 (h[l := x] @ ys)"
  by (auto simp: prefix_def list_update_append)

lemma holds_train_step:
  assumes "holds_train h l tr" and "h ! l = PyList rs"
  shows "holds_train (h[l := PyList (rs @ [length h])] @ (BoolArr k m # ys)) l (tr @ [m])"
proof -
  from assms(1) have l: "l < length h" by (simp add: holds_train_def)
  have "holds_train ((h @ [BoolArr k m])[l := PyList (rs @ [length h])]) l (tr @ [m])"
    by (rule holds_train_append [OF holds_train_extend [OF assms(1)]])
      (use l assms(2) in \<open>simp_all add: nth_append\<close>)
  then have "holds_train (h[l := PyList (rs @ [length h])] @ [BoolArr k m]) l (tr @ [m])"
    using l by (simp add: list_update_append)
  from holds_train_extend [OF this, of ys] show ?thesis by simp
qed

lemmas st_defs = ge_op_def where_op_def append_op_def last_op_def dot_op_def neg_op_def
  add_scalar_op_def rmul_scalar_op_def add_op_def iadd_op_def float_at_def bool_at_def mat_at_def
  list_at_def bindS_def deref_def new_def put_obj_def ret_def raise_def lift_def

lemma run_loop2_st_refines:
  assumes W: "W < length h0" "h0 ! W = MatArr kw w"
  shows "V < length h \<Longrightarrow> h ! V = FloatArr kv v \<Longrightarrow> prefix h0 h \<Longrightarrow> holds_train h l tr \<Longrightarrow>
     length h0 \<le> l \<Longrightarrow>
     refined (run_loop2_st W tau_m v_reset v_thresh membr_R dt its V l h) l
       (run_loop2 w tau_m v_reset v_thresh membr_R dt its v tr)"
proof (induction its arbitrary: h V kv v tr)
  case Nil
  then show ?case by (simp add: ret_def refined_def)
next
  case (Cons p its)
  obtain i t where p: "p = (i, t)" by (cases p)
  from Cons.prems(3) W have Wh: "W < length h" "h ! W = MatArr kw w"
    by (auto simp: prefix_def nth_append)
  from Cons.prems(4) obtain rs where l: "l < length h" and rs: "h ! l = PyList rs"
    by (auto simp: holds_train_def)
  have ne: "W \<noteq> l" "V \<noteq> l"
    using Wh rs Cons.prems(2) by auto
  show ?case
  proof (cases "i = 0")
    case True
    have "run_loop2 w tau_m v_reset v_thresh membr_R dt (p # its) v tr
        = run_loop2 w tau_m v_reset v_thresh membr_R dt its v tr"
      and "run_loop2_st W tau_m v_reset v_thresh membr_R dt (p # its) V l h
        = run_loop2_st W tau_m v_reset v_thresh membr_R dt its V l h"
      using True p by simp_all
    then show ?thesis
      using Cons.IH [OF Cons.prems(1-4)] Cons.prems(5) by simp
  next
    case False
    have IH': "refined
        (run_loop2_st W tau_m v_reset v_thresh membr_R dt its
           (Suc (Suc (Suc (Suc (Suc (Suc (Suc (Suc (Suc (length h)))))))))) l
           (h[l := PyList (rs @ [length h])] @
              [BoolArr kv (map (\<lambda>x. x \<ge> v_thresh) v), o1, o2, o3, o4, o5, o6, o7, o8, FloatArr Jax v3]))
        l (run_loop2 w tau_m v_reset v_thresh membr_R dt its v3 (tr @ [map (\<lambda>x. x \<ge> v_thresh) v]))"
      for o1 o2 o3 o4 o5 o6 o7 o8 v3
    proof (rule Cons.IH)
      show "prefix h0 (h[l := PyList (rs @ [length h])] @
              [BoolArr kv (map (\<lambda>x. x \<ge> v_thresh) v), o1, o2, o3, o4, o5, o6, o7, o8, FloatArr Jax v3])"
        by (rule prefix_update_append [OF Cons.prems(3,5)])
      show "holds_train (h[l := PyList (rs @ [length h])] @
              [BoolArr kv (map (\<lambda>x. x \<ge> v_thresh) v), o1, o2, o3, o4, o5, o6, o7, o8, FloatArr Jax v3])
            l (tr @ [map (\<lambda>x. x \<ge> v_thresh) v])"
        by (rule holds_train_step [OF Cons.prems(4) rs])
    qed (simp_all add: nth_append Cons.prems(5))
    show ?thesis
      using False Cons.prems(1,2) Wh l rs ne
      apply (simp add: p st_defs Let_def bindE_def nth_append list_update_append nth_list_update
          jnp_where_same o_def split: sum.splits)
      apply (intro conjI allI impI refined_Inl IH')
      done
  qed
qed

lemma run_simulation_st_refines:
  assumes "W < length h" "h ! W = MatArr kw w" "V < length h" "h ! V = FloatArr kv v"
  shows "case run_simulation_st W V tau_m v_reset v_thresh membr_R t_max dt h of
           (Inl e, h') \<Rightarrow> run_simulation w v tau_m v_reset v_thresh membr_R t_max dt = Inl e
         | (Inr l, h') \<Rightarrow>
             (\<exists>tr. run_simulation w v tau_m v_reset v_thresh membr_R t_max dt = Inr tr
                \<and> holds_train h' l tr)"
proof (cases "arange 0 t_max dt")
  case (Inl e)
  then show ?thesis
    by (simp add: run_simulation_st_def run_simulation_def bindS_def new_def lift_def)
next
  case (Inr ts)
  let ?h2 = "h @ [PyList [], FloatArr Jax ts]"
  have eq: "run_simulation_st W V tau_m v_reset v_thresh membr_R t_max dt h
      = run_loop_st W tau_m v_reset v_thresh membr_R dt (enumerate 0 ts) V (length h) ?h2"
    using Inr by (simp add: run_simulation_st_def bindS_def new_def lift_def)
  have "refined (run_loop_st W tau_m v_reset v_thresh membr_R dt (enumerate 0 ts) V (length h) ?h2)
      (length h) (run_loop w tau_m v_reset v_thresh membr_R dt (enumerate 0 ts) v [])"
    by (rule run_loop_st_refines [OF assms(1,2)])
      (use assms(3,4) in \<open>simp_all add: nth_append holds_train_def\<close>)
  then show ?thesis
    unfolding eq using Inr
    by (auto simp: refined_def run_simulation_def split: sum.splits prod.splits)
qed

lemma run_simulation2_st_refines:
  assumes "W < length h" "h ! W = MatArr kw w" "V < length h" "h ! V = FloatArr kv v"
  shows "case run_simulation2_st W V tau_m v_reset v_thresh membr_R t_max dt h of
           (Inl e, h') \<Rightarrow> run_simulation2 w v tau_m v_reset v_thresh membr_R t_max dt = Inl e
         | (Inr l, h') \<Rightarrow>
             (\<exists>tr. run_simulation2 w v tau_m v_reset v_thresh membr_R t_max dt = Inr tr
                \<and> holds_train h' l tr)"
proof (cases "arange 0 t_max dt")
  case (Inl e)
  then show ?thesis
    by (simp add: run_simulation2_st_def run_simulation2_def bindS_def new_def lift_def)
next
  case (Inr ts)
  let ?h2 = "h @ [PyList [], FloatArr Jax ts]"
  have eq: "run_simulation2_st W V tau_m v_reset v_thresh membr_R t_max dt h
      = run_loop2_st W tau_m v_reset v_thresh membr_R dt (enumerate 0 ts) V (length h) ?h2"
    using Inr by (simp add: run_simulation2_st_def bindS_def new_def lift_def)
  have "refined (run_loop2_st W tau_m v_reset v_thresh membr_R dt (enumerate 0 ts) V (length h) ?h2)
      (length h) (run_loop2 w tau_m v_reset v_thresh membr_R dt (enumerate 0 ts) v [])"
    by (rule run_loop2_st_refines [OF assms(1,2)])
      (use assms(3,4) in \<open>simp_all add: nth_append holds_train_def\<close>)
  then show ?thesis
    unfolding eq using Inr
    by (auto simp: refined_def run_simulation2_def split: sum.splits prod.splits)
qed

lemma keepsD:
  assumes "keeps h m Q" and "m h = (res, h')"
  shows "take (length h) h' = h" and "res = Inr r \<Longrightarrow> Q r"
proof -
  from assms have p: "prefix h h'" and q: "case res of Inl e \<Rightarrow> True | Inr x \<Rightarrow> Q x"
    unfolding keeps_def by (force dest: spec [of _ h])+
  from p show "take (length h) h' = h" by (auto simp: prefix_def)
  from q show "Q r" if "res = Inr r" using that by simp
qed

lemma call_result:
  assumes "keeps h m (\<lambda>r. length h \<le> r)"
    and "case m h of (Inl e, h') \<Rightarrow> pure = Inl e
         | (Inr l, h') \<Rightarrow> (\<exists>tr. pure = Inr tr \<and> holds_train h' l tr)"
    and "W < length h" and "V < length h"
  shows "case m h of
            (res, h') \<Rightarrow>
              take (length h) h' = h \<and> h' ! W = h ! W \<and> h' ! V = h ! V
              \<and> (case res of
                    Inl e \<Rightarrow> pure = Inl e
                  | Inr l \<Rightarrow> length h \<le> l \<and> pure = Inr (masks_of h' l))"
proof -
  obtain res h' where out: "m h = (res, h')" by (cases "m h")
  note k = keepsD [OF assms(1) out]
  from k(1) assms(3,4) have "h' ! W = h ! W" "h' ! V = h ! V"
    by (metis nth_take)+
  moreover have "case res of
          Inl e \<Rightarrow> pure = Inl e
        | Inr l \<Rightarrow> length h \<le> l \<and> pure = Inr (masks_of h' l)"
    using assms(2) k(2) unfolding out by (auto simp: holds_train_masks split: sum.splits)
  ultimately show ?thesis
    unfolding out using k(1) by simp
qed

lemma second_call:
  assumes k1: "keeps h m (\<lambda>r. length h \<le> r)"
    and r1: "case m h of (Inl e, h') \<Rightarrow> pure = Inl e
         | (Inr l, h') \<Rightarrow> (\<exists>tr. pure = Inr tr \<and> holds_train h' l tr)"
    and k2: "\<And>h1. keeps h1 m (\<lambda>r. length h1 \<le> r)"
    and r2: "\<And>h1. prefix h h1 \<Longrightarrow> (case m h1 of (Inl e, h') \<Rightarrow> pure = Inl e
         | (Inr l, h') \<Rightarrow> (\<exists>tr. pure = Inr tr \<and> holds_train h' l tr))"
  shows "case m h of
           (res1, h1) \<Rightarrow>
             (case m h1 of
                (res2, h2) \<Rightarrow>
                  take (length h1) h2 = h1
                  \<and> (case res1 of
                        Inl e \<Rightarrow> res2 = Inl e
                      | Inr l1 \<Rightarrow>
                          (case res2 of
                             Inl e \<Rightarrow> False
                           | Inr l2 \<Rightarrow> l1 \<noteq> l2 \<and> masks_of h2 l1 = masks_of h1 l1
                               \<and> masks_of h2 l2 = masks_of h1 l1)))"
proof -
  obtain res1 h1 where o1: "m h = (res1, h1)" by (cases "m h")
  obtain res2 h2 where o2: "m h1 = (res2, h2)" by (cases "m h1")
  have p1: "prefix h h1"
    using keepsD(1) [OF k1 o1] by (metis prefix_def append_take_drop_id)
  have t2: "take (length h1) h2 = h1"
    by (rule keepsD(1) [OF k2 o2])
  then obtain zs where zs: "h2 = h1 @ zs"
    by (metis append_take_drop_id)
  note a = r1 [unfolded o1] and b = r2 [OF p1, unfolded o2]
  have "case res1 of
          Inl e \<Rightarrow> res2 = Inl e
        | Inr l1 \<Rightarrow>
            (case res2 of
               Inl e \<Rightarrow> False
             | Inr l2 \<Rightarrow> l1 \<noteq> l2 \<and> masks_of h2 l1 = masks_of h1 l1
                 \<and> masks_of h2 l2 = masks_of h1 l1)"
  proof (cases res1)
    case (Inl e)
    with a b show ?thesis by (cases res2) auto
  next
    case (Inr l1)
    with a obtain tr where tr: "pure = Inr tr" "holds_train h1 l1 tr" by auto
    with b obtain l2 where l2: "res2 = Inr l2" "holds_train h2 l2 tr"
      by (cases res2) auto
    from keepsD(2) [OF k2 o2 l2(1)] tr(2) have "l1 \<noteq> l2"
      by (auto simp: holds_train_def)
    moreover have "masks_of h2 l1 = tr"
      using holds_train_extend [OF tr(2), of zs] zs by (simp add: holds_train_masks)
    ultimately show ?thesis
      using Inr l2 tr(2) by (simp add: holds_train_masks)
  qed
  with t2 show ?thesis
    by (simp add: o1 o2)
qed

section \<open>Rounding to nearest: order and fixed points\<close>

text \<open>
  Rounding keeps the order and the sign, leaves a float as it is, and so rounds a rounded
  value to itself.
\<close>

lemma round_even_cases:
  "round_even y = \<lfloor>y\<rfloor> \<or> round_even y = \<lfloor>y\<rfloor> + 1"
  by (simp add: round_even_def Let_def)

lemma round_even_of_int [simp]: "round_even (of_int k) = k"
  by (simp add: round_even_def)

lemma round_even_mono:
  assumes "x \<le> y"
  shows "round_even x \<le> round_even y"
proof (cases "\<lfloor>x\<rfloor> = \<lfloor>y\<rfloor>")
  case True
  have "x - of_int \<lfloor>y\<rfloor> \<le> y - of_int \<lfloor>y\<rfloor>" using assms by simp
  then show ?thesis
    unfolding round_even_def Let_def True by auto
next
  case False
  with assms have "\<lfloor>x\<rfloor> < \<lfloor>y\<rfloor>"
    using floor_mono [OF assms] by linarith
  moreover have "round_even x \<le> \<lfloor>x\<rfloor> + 1" "\<lfloor>y\<rfloor> \<le> round_even y"
    using round_even_cases [of x] round_even_cases [of y] by auto
  ultimately show ?thesis by linarith
qed

lemma halvings_bounds:
  "1 \<le> x \<Longrightarrow> 2 powi halvings x \<le> x \<and> x < 2 powi (halvings x + 1)"
proof (induction x rule: halvings.induct)
  case (1 x)
  show ?case
  proof (cases "x < 2")
    case True
    with "1.prems" show ?thesis by (subst (1 2) halvings.simps) simp
  next
    case False
    then have "1 \<le> x / 2" by simp
    from "1.IH" [OF False this]
    have "2 powi halvings (x / 2) \<le> x / 2" "x / 2 < 2 powi (halvings (x / 2) + 1)"
      by simp_all
    then have "2 powi (halvings (x / 2) + 1) \<le> x" "x < 2 powi (halvings (x / 2) + 1 + 1)"
      by (simp_all add: power_int_add)
    with False show ?thesis
      by (subst (1 2) halvings.simps) (simp add: add.commute)
  qed
qed

lemma doublings_bounds:
  "0 < x \<Longrightarrow> x < 1 \<Longrightarrow> 2 powi doublings x \<le> x \<and> x < 2 powi (doublings x + 1)"
proof (induction x rule: doublings.induct)
  case (1 x)
  have rec: "doublings x = doublings (2 * x) - 1"
    using "1.prems" by (subst doublings.simps) simp
  show ?case
  proof (cases "2 * x < 1")
    case True
    from "1.IH" "1.prems" True
    have "2 powi doublings (2 * x) \<le> 2 * x" "2 * x < 2 powi (doublings (2 * x) + 1)"
      by simp_all
    moreover have "(2 :: real) powi (doublings (2 * x) - 1 + 1) = 2 powi (doublings (2 * x) - 1) * 2"
      by (rule power_int_add_1) simp
    moreover have "(2 :: real) powi (doublings (2 * x) + 1) = 2 powi doublings (2 * x) * 2"
      by (rule power_int_add_1) simp
    ultimately show ?thesis
      unfolding rec by simp
  next
    case False
    then have "doublings (2 * x) = 0"
      by (subst doublings.simps) simp
    with False "1.prems" show ?thesis
      unfolding rec by (simp add: power_int_minus)
  qed
qed

lemma ilog2_bounds:
  assumes "0 < x"
  shows "2 powi ilog2 x \<le> x" and "x < 2 powi (ilog2 x + 1)"
  using assms halvings_bounds [of x] doublings_bounds [of x]
  by (auto simp: ilog2_def not_le)

lemma ilog2_unique:
  assumes "0 < x" and "2 powi e \<le> x" and "x < 2 powi (e + 1)"
  shows "ilog2 x = e"
proof -
  note b = ilog2_bounds [OF assms(1)]
  have "(2 :: real) powi e < 2 powi (ilog2 x + 1)"
    using assms(2) b(2) by linarith
  then have "e < ilog2 x + 1"
    using power_int_increasing [of "ilog2 x + 1" e "2 :: real"] by (cases "e < ilog2 x + 1") auto
  moreover have "(2 :: real) powi ilog2 x < 2 powi (e + 1)"
    using assms(3) b(1) by linarith
  then have "ilog2 x < e + 1"
    using power_int_increasing [of "e + 1" "ilog2 x" "2 :: real"] by (cases "ilog2 x < e + 1") auto
  ultimately show ?thesis by linarith
qed

lemma round_even_uminus: "round_even (- y) = - round_even y"
proof (cases "y = of_int \<lfloor>y\<rfloor>")
  case True
  then obtain k :: int where "y = of_int k" ..
  then have "round_even (- y) = round_even (of_int (- k))" by simp
  also have "\<dots> = - k" by (rule round_even_of_int)
  finally show ?thesis using \<open>y = of_int k\<close> by simp
next
  case False
  define f where "f = \<lfloor>y\<rfloor>"
  define r where "r = y - of_int f"
  have r: "0 < r" "r < 1"
    using False unfolding r_def f_def by linarith+
  have fl: "\<lfloor>- y\<rfloor> = - f - 1"
    using r unfolding r_def by (intro floor_unique) simp_all
  have r': "- y - of_int (- f - 1) = 1 - r"
    by (simp add: r_def)
  have a: "round_even y = (if r < 1 / 2 then f else if 1 / 2 < r then f + 1
      else if even f then f else f + 1)"
    by (simp add: round_even_def Let_def f_def r_def)
  have b: "round_even (- y) = (if 1 - r < 1 / 2 then - f - 1 else if 1 / 2 < 1 - r then - f
      else if even (- f - 1) then - f - 1 else - f)"
    unfolding round_even_def Let_def fl r' by simp
  show ?thesis
    unfolding a b using r by auto
qed

lemma two_powi_pos [simp]: "0 < (2 :: real) powi k"
  by (simp add: power_int_def)

lemma two_powi_nat: "(2 :: real) powi int n = of_int (2 ^ n)"
  by (simp add: power_int_def)

lemma rne_0 [simp]: "rne p 0 = 0"
  by (simp add: rne_def)

lemma rne_uminus: "rne p (- x) = - rne p x"
  by (simp add: rne_def Let_def round_even_uminus)

lemma rne_pos_bounds:
  assumes "0 < x" and "0 < p"
  shows "2 powi ilog2 x \<le> rne p x" and "rne p x \<le> 2 powi (ilog2 x + 1)"
proof -
  define e where "e = ilog2 x"
  define u :: real where "u = 2 powi (e - int p + 1)"
  have u: "0 < u" by (simp add: u_def)
  have r: "rne p x = u * of_int (round_even (x / u))"
    using assms(1) by (simp add: rne_def Let_def u_def e_def)
  have lo: "u * of_int (2 ^ (p - 1)) = 2 powi e"
  proof -
    have "of_int (2 ^ (p - 1)) = (2 :: real) powi (int p - 1)"
      using assms(2) two_powi_nat [of "p - 1"] by (simp add: of_nat_diff)
    then have "u * of_int (2 ^ (p - 1)) = 2 powi (e - int p + 1 + (int p - 1))"
      unfolding u_def by (subst power_int_add) simp_all
    then show ?thesis by simp
  qed
  have hi: "u * of_int (2 ^ p) = 2 powi (e + 1)"
  proof -
    have "u * of_int (2 ^ p) = 2 powi (e - int p + 1 + int p)"
      unfolding u_def two_powi_nat [symmetric] by (subst power_int_add) simp_all
    then show ?thesis by (simp add: add.commute)
  qed
  from ilog2_bounds [OF assms(1)] have "2 powi e \<le> x" "x < 2 powi (e + 1)"
    by (simp_all add: e_def)
  then have "of_int (2 ^ (p - 1)) \<le> x / u" "x / u \<le> of_int (2 ^ p)"
    using u lo hi by (simp_all add: field_simps)
  then have "2 ^ (p - 1) \<le> round_even (x / u)" "round_even (x / u) \<le> 2 ^ p"
    using round_even_mono [of "of_int (2 ^ (p - 1))" "x / u"]
      round_even_mono [of "x / u" "of_int (2 ^ p)"]
    by (simp_all del: of_int_power)
  then have "(of_int (2 ^ (p - 1)) :: real) \<le> of_int (round_even (x / u))"
    and "(of_int (round_even (x / u)) :: real) \<le> of_int (2 ^ p)"
    by (simp_all only: of_int_le_iff)
  then have "u * of_int (2 ^ (p - 1)) \<le> rne p x" "rne p x \<le> u * of_int (2 ^ p)"
    unfolding r using u by (simp_all only: mult_le_cancel_left_pos)
  then show "2 powi ilog2 x \<le> rne p x" and "rne p x \<le> 2 powi (ilog2 x + 1)"
    unfolding lo hi e_def by simp_all
qed

lemma rne_pos: "0 < x \<Longrightarrow> 0 < p \<Longrightarrow> 0 < rne p x"
  using rne_pos_bounds(1) [of x p] two_powi_pos [of "ilog2 x"] by linarith

lemma rne_nonneg: "0 \<le> x \<Longrightarrow> 0 < p \<Longrightarrow> 0 \<le> rne p x"
  using rne_pos [of x p] by (cases "x = 0") auto

lemma rne_nonpos: "x \<le> 0 \<Longrightarrow> 0 < p \<Longrightarrow> rne p x \<le> 0"
  using rne_nonneg [of "- x" p] by (simp add: rne_uminus)

lemma rne_mono_pos:
  assumes "0 < x" and "x \<le> y" and "0 < p"
  shows "rne p x \<le> rne p y"
proof -
  from assms have y: "0 < y" by simp
  note bx = ilog2_bounds [OF assms(1)] and bdy = ilog2_bounds [OF y]
  have "(2 :: real) powi ilog2 x < 2 powi (ilog2 y + 1)"
    using bx(1) bdy(2) assms(2) by linarith
  then have le: "ilog2 x \<le> ilog2 y"
    using power_int_increasing [of "ilog2 y + 1" "ilog2 x" "2 :: real"]
    by (cases "ilog2 x \<le> ilog2 y") auto
  show ?thesis
  proof (cases "ilog2 x = ilog2 y")
    case True
    define u :: real where "u = 2 powi (ilog2 y - int p + 1)"
    have u: "0 < u" by (simp add: u_def)
    then have "x / u \<le> y / u" using assms(2) by (simp add: divide_right_mono)
    then have "(of_int (round_even (x / u)) :: real) \<le> of_int (round_even (y / u))"
      using round_even_mono by simp
    then have "u * of_int (round_even (x / u)) \<le> u * of_int (round_even (y / u))"
      using u by (simp only: mult_le_cancel_left_pos)
    then show ?thesis
      using assms(1) y True by (simp add: rne_def Let_def u_def)
  next
    case False
    with le have "ilog2 x + 1 \<le> ilog2 y" by simp
    then have "(2 :: real) powi (ilog2 x + 1) \<le> 2 powi ilog2 y"
      by (intro power_int_increasing) simp_all
    with rne_pos_bounds(2) [OF assms(1,3)] rne_pos_bounds(1) [OF y assms(3)]
    show ?thesis by linarith
  qed
qed

lemma rne_mono:
  assumes "x \<le> y" and "0 < p"
  shows "rne p x \<le> rne p y"
proof -
  consider "0 < x" | "x \<le> 0" "0 \<le> y" | "y < 0" by linarith
  then show ?thesis
  proof cases
    case 1
    then show ?thesis by (rule rne_mono_pos [OF _ assms])
  next
    case 2
    then show ?thesis
      using rne_nonpos [of x p] rne_nonneg [of y p] assms(2) by linarith
  next
    case 3
    then have "0 < - y" "- y \<le> - x" using assms(1) by simp_all
    from rne_mono_pos [OF this assms(2)] show ?thesis
      by (simp add: rne_uminus)
  qed
qed

lemma rne_exact_pos:
  assumes x: "x = of_int m * 2 powi k" and m: "0 < m" "m < 2 ^ p"
  shows "rne p x = x"
proof -
  have xp: "0 < x" using m(1) by (simp add: x)
  define e where "e = ilog2 x"
  define u :: real where "u = 2 powi (e - int p + 1)"
  have u: "0 < u" by (simp add: u_def)
  have "x < of_int (2 ^ p) * 2 powi k"
    unfolding x using m(2) by (simp del: of_int_power)
  also have "\<dots> = 2 powi (int p + k)"
    unfolding two_powi_nat [symmetric] by (subst power_int_add) simp_all
  finally have "(2 :: real) powi e < 2 powi (int p + k)"
    using ilog2_bounds(1) [OF xp] by (simp add: e_def)
  then have "e < int p + k"
    using power_int_increasing [of "int p + k" e "2 :: real"]
    by (cases "e < int p + k") auto
  define n where "n = nat (k - (e - int p + 1))"
  with \<open>e < int p + k\<close> have n: "k = (e - int p + 1) + int n" by simp
  have "2 powi k = u * (2 :: real) powi int n"
    unfolding n u_def by (subst power_int_add) simp_all
  then have "x / u = of_int (m * 2 ^ n)"
    using u by (simp add: x two_powi_nat)
  then have "round_even (x / u) = m * 2 ^ n"
    by (simp only: round_even_of_int)
  then have "rne p x = u * of_int (m * 2 ^ n)"
    using xp by (simp add: rne_def Let_def u_def e_def)
  also have "\<dots> = x"
    using \<open>x / u = of_int (m * 2 ^ n)\<close> u by (simp add: field_simps)
  finally show ?thesis .
qed


lemma rne_one: "0 < p \<Longrightarrow> rne p 1 = 1"
  using rne_exact_pos [of 1 1 0 p] by simp

section \<open>The simulator in floating point: closed form\<close>

text \<open>
  On \<open>n\<close> potentials and an \<open>n \<times> n\<close> matrix both loops return, and each is \<open>loop_q\<close> with
  its own quotient.
\<close>

lemma dot_r_cols:
  "ncols W = length s \<Longrightarrow>
   dot_r fl W s = Inr (map (\<lambda>r. foldl (\<lambda>acc (w, b). fl (acc + fl (w * of_bool b))) 0 (zip r s)) (rows W))"
  by (simp add: dot_r_def)

lemma run_step_r_square:
  assumes sq: "square n W" and len: "length V = n" and tau: "fl tau_m \<noteq> 0"
  shows "run_step_r fl V v_thresh v_reset W tau_m dt membr_R =
     Inr (step_q fl (fl (fl dt / fl tau_m)) (fl v_thresh) (fl v_reset) (fl membr_R) W V,
          map (\<lambda>v. v \<ge> fl v_thresh) V)"
proof -
  have c: "ncols W = length (map (\<lambda>v. v \<ge> fl v_thresh) V)" and r: "length (rows W) = length V"
    using sq len by (simp_all add: square_def nrows_def)
  show ?thesis
    unfolding run_step_r_def step_q_def Let_def
    using r tau
    by (simp add: jnp_where_same dot_r_cols [OF c] broadcast_same bindE_def jit_scale_r_def
        zip_map1 zip_map2 zip_same_conv_map map2_map_map split_def o_def zip_assoc)
qed

lemma step_q_length:
  "square n W \<Longrightarrow> length V = n \<Longrightarrow> length (step_q fl q th vr R W V) = n"
  by (simp add: step_q_def square_def nrows_def)

lemma run_loop_r_closed:
  assumes "square n W" and "fl tau_m \<noteq> 0"
  shows "length V = n \<Longrightarrow>
    run_loop_r fl W tau_m v_reset v_thresh membr_R dt its V tr =
      Inr (loop_q fl (fl (fl dt / fl tau_m)) (fl v_thresh) (fl v_reset) (fl membr_R) W its V tr)"
proof (induction its arbitrary: V tr)
  case Nil
  show ?case by simp
next
  case (Cons p its)
  obtain i t where p: "p = (i, t)" by (cases p)
  show ?case
  proof (cases "i = 0")
    case True
    with Cons p show ?thesis by simp
  next
    case False
    note st = run_step_r_square [where fl = fl and tau_m = tau_m, OF assms(1) Cons.prems assms(2),
        of v_thresh v_reset dt membr_R]
    have "length (step_q fl (fl (fl dt / fl tau_m)) (fl v_thresh) (fl v_reset) (fl membr_R) W V) = n"
      by (rule step_q_length [OF assms(1) Cons.prems])
    from Cons.IH [OF this] show ?thesis
      using False p st by simp
  qed
qed



lemma loop_q_train:
  "\<exists>new. snd (loop_q fl q th vr R W its V tr) = tr @ new \<and> length new = recorded its"
proof (induction its arbitrary: V tr)
  case Nil
  show ?case by simp
next
  case (Cons p its)
  obtain i t where p: "p = (i, t)" by (cases p)
  show ?case
  proof (cases "i = 0")
    case True
    with Cons p show ?thesis by simp
  next
    case False
    from Cons [of "step_q fl q th vr R W V" "tr @ [map (\<lambda>v. v \<ge> th) V]"]
    obtain new where "snd (loop_q fl q th vr R W its (step_q fl q th vr R W V)
        (tr @ [map (\<lambda>v. v \<ge> th) V])) = (tr @ [map (\<lambda>v. v \<ge> th) V]) @ new"
      "length new = recorded its"
      by blast
    then have "snd (loop_q fl q th vr R W (p # its) V tr) = tr @ (map (\<lambda>v. v \<ge> th) V # new)
       \<and> length (map (\<lambda>v. v \<ge> th) V # new) = recorded (p # its)"
      using False p by simp
    then show ?thesis by blast
  qed
qed

lemma loop_q_count:
  "length (snd (loop_q fl q th vr R W its V [])) = recorded its"
  using loop_q_train [of fl q th vr R W its V "[]"] by auto



lemma arange_r_pos:
  "dt \<noteq> 0 \<Longrightarrow> \<exists>ts. arange_r fd 0 t_max dt = Inr ts \<and> length ts = nat \<lceil>fd (fd t_max / dt)\<rceil>"
  by (simp add: arange_r_def)

lemma rne_nonzero:
  assumes "x \<noteq> 0" and "0 < p"
  shows "rne p x \<noteq> 0"
proof (cases "0 < x")
  case True
  from rne_pos [OF True assms(2)] show ?thesis by simp
next
  case False
  with assms(1) have "0 < - x" by simp
  from rne_pos [OF this assms(2)] show ?thesis by (simp add: rne_uminus)
qed

lemma fl32_nonzero: "x \<noteq> 0 \<Longrightarrow> fl32 x \<noteq> 0"
  by (simp add: fl32_def rne_nonzero)

lemma run_simulation_r_closed:
  assumes "square n W" and "length V = n" and "fl tau_m \<noteq> 0" and "dt \<noteq> 0"
  shows "\<exists>ts. arange_r fd 0 t_max dt = Inr ts \<and> length ts = nat \<lceil>fd (fd t_max / dt)\<rceil>
     \<and> run_simulation_r fl fd W V tau_m v_reset v_thresh membr_R t_max dt =
        Inr (snd (loop_q fl (fl (fl dt / fl tau_m)) (fl v_thresh) (fl v_reset) (fl membr_R) W
                    (enumerate 0 ts) V []))"
proof -
  from arange_r_pos [OF assms(4), of fd t_max] obtain ts where
    ts: "arange_r fd 0 t_max dt = Inr ts" "length ts = nat \<lceil>fd (fd t_max / dt)\<rceil>"
    by blast
  have "run_simulation_r fl fd W V tau_m v_reset v_thresh membr_R t_max dt =
        Inr (snd (loop_q fl (fl (fl dt / fl tau_m)) (fl v_thresh) (fl v_reset) (fl membr_R) W
                    (enumerate 0 ts) V []))"
    unfolding run_simulation_r_def ts(1)
      run_loop_r_closed [where fl = fl and tau_m = tau_m, OF assms(1,3,2)]
    by (simp add: split_def)
  with ts show ?thesis by blast
qed


lemma fl64_le_one:
  assumes "0 < dt" and "t_max \<le> dt"
  shows "\<lceil>fl64 (t_max / dt)\<rceil> \<le> 1"
proof -
  from assms have "t_max / dt \<le> 1" by simp
  then have "fl64 (t_max / dt) \<le> fl64 1"
    unfolding fl64_def by (rule rne_mono) simp
  then have "fl64 (t_max / dt) \<le> 1"
    by (simp add: fl64_def rne_one)
  then show ?thesis by (simp add: ceiling_le_one)
qed

lemma run_step_r_empty:
  "run_step_r fl [] v_thresh v_reset (Mat 0 []) tau_m dt membr_R = Inr ([], [])"
  by (simp add: run_step_r_def Let_def bindE_def jnp_where_def broadcast_def dot_r_def jit_scale_r_def)

lemma run_loop_r_empty:
  "run_loop_r fl (Mat 0 []) tau_m v_reset v_thresh membr_R dt its [] tr
     = Inr ([], tr @ replicate (recorded its) [])"
proof (induction its arbitrary: tr)
  case Nil
  show ?case by simp
next
  case (Cons p its)
  obtain i t where p: "p = (i, t)" by (cases p)
  show ?case
    unfolding p by (simp add: run_step_r_empty Cons.IH replicate_app_Cons_same)
qed

section \<open>A network without synapses, in floating point\<close>
















section \<open>Exact arithmetic as an instance\<close>

text \<open>
  With the identity for both rounding functions the simulator in floating point is the
  simulator in exact arithmetic.
\<close>

lemma foldl_sum_list:
  fixes a :: real
  shows "foldl (\<lambda>acc (w, b). acc + w * of_bool b) a ps
     = a + sum_list (map (\<lambda>(w, b). w * of_bool b) ps)"
  by (induction ps arbitrary: a) (auto simp: algebra_simps)

lemma dot_r_exact: "dot_r (\<lambda>x. x) W s = dot W s"
  by (simp add: dot_r_def dot_def foldl_sum_list)

lemma run_step_r_exact:
  "run_step_r (\<lambda>x. x) V v_thresh v_reset W tau_m dt membr_R
     = run_step V v_thresh v_reset W tau_m dt membr_R"
  by (simp add: run_step_r_def run_step_def run_step_dV_def Let_def dot_r_exact jit_scale_r_def
      jit_scale_def bindE_def split: sum.splits)

lemma run_loop_r_exact:
  "run_loop_r (\<lambda>x. x) W tau_m v_reset v_thresh membr_R dt its V tr
     = run_loop W tau_m v_reset v_thresh membr_R dt its V tr"
proof (induction its arbitrary: V tr)
  case Nil
  show ?case by simp
next
  case (Cons p its)
  obtain i t where p: "p = (i, t)" by (cases p)
  show ?case
    unfolding p by (simp add: run_step_r_exact Cons.IH split: sum.splits)
qed

lemma arange_r_exact: "arange_r (\<lambda>x. x) start stop step = arange start stop step"
  by (simp add: arange_r_def arange_def)

lemma run_simulation_r_exact:
  "run_simulation_r (\<lambda>x. x) (\<lambda>x. x) W V tau_m v_reset v_thresh membr_R t_max dt
     = run_simulation W V tau_m v_reset v_thresh membr_R t_max dt"
  unfolding run_simulation_r_def run_simulation_def arange_r_exact run_loop_r_exact ..

lemma run_loop2_r_exact:
  "run_loop2_r (\<lambda>x. x) (\<lambda>x. x) W tau_m v_reset v_thresh membr_R dt its V tr
     = run_loop2 W tau_m v_reset v_thresh membr_R dt its V tr"
proof (induction its arbitrary: V tr)
  case Nil
  show ?case by simp
next
  case (Cons p its)
  obtain i t where p: "p = (i, t)" by (cases p)
  show ?case
    unfolding p
    by (simp add: Let_def dot_r_exact py_div_r_def py_div_def Cons.IH bindE_def split: sum.splits)
qed

lemma run_simulation2_r_exact:
  "run_simulation2_r (\<lambda>x. x) (\<lambda>x. x) W V tau_m v_reset v_thresh membr_R t_max dt
     = run_simulation2 W V tau_m v_reset v_thresh membr_R t_max dt"
  unfolding run_simulation2_r_def run_simulation2_def arange_r_exact run_loop2_r_exact ..

section \<open>Some computed values\<close>

lemma fl64_3: "fl64 3 = 3"
  by code_simp

lemma fl64_1: "fl64 1 = 1"
  by code_simp






section \<open>The step transformation\<close>



section \<open>The two variants\<close>




section \<open>The reset invariant\<close>



section \<open>The number of recorded masks\<close>

text \<open>
  Claim C4, as amended. For \<open>dt > 0\<close> and a Python float \<open>t_max\<close> the first
  \<^verbatim>\<open>run_simulation\<close> returns \<open>\<lceil>q\<rceil> - 1\<close> masks, where \<open>q\<close> is the float64 quotient
  \<open>t_max / dt\<close>, and none when that number is not positive (the shapes fit and
  \<open>tau_m \<noteq> 0\<close>); when \<open>t_max \<le> dt\<close> it returns the empty spike train and raises nothing,
  whatever the other arguments are.
\<close>

theorem step_count_rounded:
  assumes "0 < dt" and "fl64 t_max = t_max"
  shows "(square n W \<and> length V = n \<and> tau_m \<noteq> 0 \<longrightarrow>
           (\<exists>train. run_simulation_r fl32 fl64 W V tau_m v_reset v_thresh membr_R t_max dt = Inr train
              \<and> int (length train) = max 0 (\<lceil>fl64 (t_max / dt)\<rceil> - 1)))
       \<and> (t_max \<le> dt \<longrightarrow>
            run_simulation_r fl32 fl64 W V tau_m v_reset v_thresh membr_R t_max dt = Inr [])"
proof (intro conjI impI)
  assume a: "square n W \<and> length V = n \<and> tau_m \<noteq> 0"
  then have tau32: "fl32 tau_m \<noteq> 0" by (simp add: fl32_nonzero)
  from assms(1) have dt: "dt \<noteq> 0" by simp
  from a run_simulation_r_closed [where fl = fl32 and tau_m = tau_m and fd = fl64, OF _ _ tau32 dt,
      of n W V t_max v_reset v_thresh membr_R]
  obtain ts where ts: "length ts = nat \<lceil>fl64 (fl64 t_max / dt)\<rceil>"
    and r: "run_simulation_r fl32 fl64 W V tau_m v_reset v_thresh membr_R t_max dt =
        Inr (snd (loop_q fl32 (fl32 (fl32 dt / fl32 tau_m)) (fl32 v_thresh) (fl32 v_reset)
                    (fl32 membr_R) W (enumerate 0 ts) V []))"
    by blast
  let ?train = "snd (loop_q fl32 (fl32 (fl32 dt / fl32 tau_m)) (fl32 v_thresh) (fl32 v_reset)
                    (fl32 membr_R) W (enumerate 0 ts) V [])"
  have "length ?train = nat \<lceil>fl64 (t_max / dt)\<rceil> - 1"
    using ts by (simp add: loop_q_count recorded_enumerate assms(2))
  then have "int (length ?train) = max 0 (\<lceil>fl64 (t_max / dt)\<rceil> - 1)"
    by linarith
  with r show "\<exists>train. run_simulation_r fl32 fl64 W V tau_m v_reset v_thresh membr_R t_max dt = Inr train
              \<and> int (length train) = max 0 (\<lceil>fl64 (t_max / dt)\<rceil> - 1)"
    by blast
next
  assume "t_max \<le> dt"
  with assms(1) have "\<lceil>fl64 (t_max / dt)\<rceil> \<le> 1" by (rule fl64_le_one)
  then have "nat \<lceil>fl64 (t_max / dt)\<rceil> = 0 \<or> nat \<lceil>fl64 (t_max / dt)\<rceil> = 1" by linarith
  then have "[0..<nat \<lceil>fl64 (t_max / dt)\<rceil>] = [] \<or> [0..<nat \<lceil>fl64 (t_max / dt)\<rceil>] = [0]"
    by auto
  then show "run_simulation_r fl32 fl64 W V tau_m v_reset v_thresh membr_R t_max dt = Inr []"
    using assms by (auto simp: run_simulation_r_def arange_r_def)
qed

theorem step_count_rounded_witness:
  "(0 :: real) < 1 \<and> fl64 3 = 3 \<and> fl64 1 = 1
   \<and> square 2 (Mat 2 [[0, 5], [5, 0]]) \<and> length [3 / 2, 0 :: real] = 2 \<and> (1 :: real) \<noteq> 0
   \<and> (\<exists>train. run_simulation_r fl32 fl64 (Mat 2 [[0, 5], [5, 0]]) [3 / 2, 0] 1 0 1 1 3 1 = Inr train
          \<and> int (length train) = 2)
   \<and> (1 :: real) \<le> 1
   \<and> run_simulation_r fl32 fl64 (Mat 2 [[0, 5], [5, 0]]) [3 / 2, 0] 1 0 1 1 1 1 = Inr []"
proof -
  have sq: "square 2 (Mat 2 [[0, 5], [5, 0]])"
    by (simp add: square_def mat_ok_def nrows_def)
  have dt: "(0 :: real) < 1" by simp
  from step_count_rounded [OF dt fl64_3, of 2 "Mat 2 [[0, 5], [5, 0]]" "[3 / 2, 0]" 1 0 1 1] sq
  have a: "\<exists>train. run_simulation_r fl32 fl64 (Mat 2 [[0, 5], [5, 0]]) [3 / 2, 0] 1 0 1 1 3 1 = Inr train
          \<and> int (length train) = 2"
    by (simp add: fl64_3)
  from step_count_rounded [OF dt fl64_1, of 2 "Mat 2 [[0, 5], [5, 0]]" "[3 / 2, 0]" 1 0 1 1]
  have b: "run_simulation_r fl32 fl64 (Mat 2 [[0, 5], [5, 0]]) [3 / 2, 0] 1 0 1 1 1 1 = Inr []"
    by simp
  from a b sq fl64_3 fl64_1 show ?thesis by simp
qed

text \<open>
  The claim as it was stated counts \<open>\<lceil>t_max / dt\<rceil> - 1\<close> masks, with the quotient of the two
  numbers. The count of the code is that of the float64 division, and the two differ in
  either direction. For the Python floats \<open>0.9\<close> and \<open>0.3\<close> the quotient of the two stored
  values is a little above 3, which makes 3 masks; the float64 division returns \<open>3.0\<close>,
  \<^verbatim>\<open>arange\<close> has three points, and the run records two masks. For \<open>2.1\<close> and \<open>0.3\<close> the
  quotient of the decimal numbers is 7, which makes 6 masks; the float64 division returns
  \<open>7.000000000000001\<close>, \<^verbatim>\<open>arange\<close> has eight points, and the run records seven masks.
\<close>

theorem step_count_counterexample:
  "(0 :: real) < 5404319552844595 / 2 ^ 54
   \<and> fl64 (9 / 10) = 8106479329266893 / 2 ^ 53 \<and> fl64 (3 / 10) = 5404319552844595 / 2 ^ 54
   \<and> square 1 (Mat 1 [[0]]) \<and> length [0 :: real] = 1
   \<and> run_simulation_r fl32 fl64 (Mat 1 [[0]]) [0] 1 0 1 1
         (8106479329266893 / 2 ^ 53) (5404319552844595 / 2 ^ 54)
       = Inr [[False], [False]]
   \<and> \<lceil>(8106479329266893 / 2 ^ 53 :: real) / (5404319552844595 / 2 ^ 54)\<rceil> - 1 = 3
   \<and> fl64 (21 / 10) = 4728779608739021 / 2 ^ 51
   \<and> run_simulation_r fl32 fl64 (Mat 1 [[0]]) [0] 1 0 1 1
         (4728779608739021 / 2 ^ 51) (5404319552844595 / 2 ^ 54)
       = Inr [[False], [False], [False], [False], [False], [False], [False]]
   \<and> \<lceil>(21 / 10 :: real) / (3 / 10)\<rceil> - 1 = 6"
  by code_simp

section \<open>A network without synapses\<close>




section \<open>Arrays of the wrong shape\<close>

text \<open>
  Claim C6, as amended. The code checks no shape itself; a mismatch is found by \<^verbatim>\<open>dot\<close> or
  by broadcasting inside the first step. For \<open>dt > 0\<close>: when a step is to be executed
  (\<open>dt < t_max\<close>) and the column count of \<open>W\<close> differs from the length of \<open>V0\<close>, or the row
  count of \<open>W\<close> differs from the length of \<open>V0\<close> and neither of the two is 1, the first
  \<^verbatim>\<open>run_simulation\<close> fails with a dimension mismatch and returns no mask; when no step
  is to be executed (\<open>t_max \<le> dt\<close>) it returns the empty spike train whatever the shapes.
\<close>

theorem shape_mismatch:
  assumes "0 < dt"
  shows "(dt < t_max
          \<and> (ncols W \<noteq> length V \<or> (nrows W \<noteq> length V \<and> nrows W \<noteq> 1 \<and> length V \<noteq> 1)) \<longrightarrow>
            run_simulation W V tau_m v_reset v_thresh membr_R t_max dt = Inl DimensionMismatch)
       \<and> (t_max \<le> dt \<longrightarrow>
            run_simulation W V tau_m v_reset v_thresh membr_R t_max dt = Inr [])"
proof (intro conjI impI)
  assume a: "dt < t_max
     \<and> (ncols W \<noteq> length V \<or> (nrows W \<noteq> length V \<and> nrows W \<noteq> 1 \<and> length V \<noteq> 1))"
  from assms obtain ts where ts: "arange 0 t_max dt = Inr ts" "length ts = nat \<lceil>t_max / dt\<rceil>"
    using arange_pos [of dt t_max] by auto
  from ceiling_ge_2 [OF assms] a ts(2) have "2 \<le> length ts" by simp
  then obtain t0 t1 rest where "ts = t0 # t1 # rest"
    by (cases ts; cases "tl ts") auto
  then have "run_loop W tau_m v_reset v_thresh membr_R dt (enumerate 0 ts) V [] = Inl DimensionMismatch"
    using run_step_mismatch [of W V v_thresh v_reset tau_m dt membr_R] a by simp
  with ts(1) show "run_simulation W V tau_m v_reset v_thresh membr_R t_max dt = Inl DimensionMismatch"
    by (simp add: run_simulation_def)
next
  assume "t_max \<le> dt"
  with assms have "t_max / dt \<le> 1" by simp
  then have "\<lceil>t_max / dt\<rceil> \<le> 1" by (simp add: ceiling_le_one)
  then have "nat \<lceil>t_max / dt\<rceil> = 0 \<or> nat \<lceil>t_max / dt\<rceil> = 1" by linarith
  then have "[0..<nat \<lceil>t_max / dt\<rceil>] = [] \<or> [0..<nat \<lceil>t_max / dt\<rceil>] = [0]"
    by auto
  then show "run_simulation W V tau_m v_reset v_thresh membr_R t_max dt = Inr []"
    using assms by (auto simp: run_simulation_def arange_def)
qed

theorem shape_mismatch_witness:
  "(0 :: real) < 1 \<and> (1 :: real) < 3
   \<and> ncols (Mat 3 [[0, 5, 1], [5, 0, 1]]) \<noteq> length [3 / 2, 0 :: real]
   \<and> run_simulation (Mat 3 [[0, 5, 1], [5, 0, 1]]) [3 / 2, 0] 1 0 1 1 3 1 = Inl DimensionMismatch
   \<and> (1 :: real) \<le> 1
   \<and> run_simulation (Mat 3 [[0, 5, 1], [5, 0, 1]]) [3 / 2, 0] 1 0 1 1 1 1 = Inr []"
proof -
  have h: "(0 :: real) < 1" by simp
  from shape_mismatch [OF h, of 3 "Mat 3 [[0, 5, 1], [5, 0, 1]]" "[3 / 2, 0]" 1 0 1 1]
       shape_mismatch [OF h, of 1 "Mat 3 [[0, 5, 1], [5, 0, 1]]" "[3 / 2, 0]" 1 0 1 1]
  show ?thesis by simp
qed

text \<open>
  The claim as it was stated fails twice: a \<open>2 \<times> 3\<close> matrix with two potentials and
  \<open>t_max = dt\<close> returns the empty spike train without any error, and a \<open>1 \<times> 2\<close> matrix
  with two potentials is accepted in every step, its single row broadcast to both neurons.
\<close>

theorem shape_mismatch_counterexample:
  "nrows (Mat 3 [[0, 5, 1], [5, 0, 1]]) \<noteq> ncols (Mat 3 [[0, 5, 1], [5, 0, 1]])
   \<and> run_simulation (Mat 3 [[0, 5, 1], [5, 0, 1]]) [3 / 2, 0] 1 0 1 1 1 1 = Inr []
   \<and> nrows (Mat 2 [[0, 5]]) \<noteq> ncols (Mat 2 [[0, 5]])
   \<and> nrows (Mat 2 [[0, 5]]) \<noteq> length [3 / 2, 0 :: real]
   \<and> run_simulation (Mat 2 [[0, 5]]) [3 / 2, 0] 1 0 1 1 3 1 = Inr [[True, False], [False, False]]"
  by (simp add: nrows_def run_simulation_def arange_def run_step_def run_step_dV_def bindE_def
      jnp_where_def broadcast_def dot_def jit_scale_def enumerate_eq_zip upt_rec)

section \<open>Two neurons exciting each other\<close>

text \<open>
  Claim C7. With \<open>W = [[0, 5], [5, 0]]\<close>, \<open>v_reset = 0\<close>, \<open>v_thresh = 1\<close>, \<open>membr_R = 1\<close>,
  \<open>tau_m = 1\<close>, \<open>dt = 1\<close>, \<open>V0 = [1.5, 0]\<close> and \<open>t_max > 2\<close> (so that two steps are
  recorded): the first mask is \<open>[True, False]\<close> and the potentials after step 1 are
  \<open>[0, 5]\<close>; the second mask is \<open>[False, True]\<close> and the potentials after step 2 are
  \<open>[5, 0]\<close>, neuron 1 back at \<open>v_reset\<close> and neuron 0 lifted by the current from neuron 1.
\<close>

theorem two_neuron_scenario:
  assumes "2 < t_max"
  shows "run_upto (Mat 2 [[0, 5], [5, 0]]) [3 / 2, 0] 1 0 1 1 t_max 1 1
           = Inr ([0, 5], [[True, False]])
       \<and> run_upto (Mat 2 [[0, 5], [5, 0]]) [3 / 2, 0] 1 0 1 1 t_max 1 2
           = Inr ([5, 0], [[True, False], [False, True]])
       \<and> (\<exists>train. run_simulation (Mat 2 [[0, 5], [5, 0]]) [3 / 2, 0] 1 0 1 1 t_max 1 = Inr train
             \<and> 2 \<le> length train
             \<and> train ! 0 = [True, False] \<and> train ! 1 = [False, True])"
proof -
  let ?W = "Mat 2 [[0, 5], [5, 0]]"
  obtain ts where ts: "arange 0 t_max 1 = Inr ts" "length ts = nat \<lceil>t_max / 1\<rceil>"
    using arange_pos [of 1 t_max] by auto
  from assms have "2 < \<lceil>t_max\<rceil>" by linarith
  then have "3 \<le> nat \<lceil>t_max\<rceil>" by linarith
  with ts(2) have l: "3 \<le> length ts" by simp
  then have l1: "Suc 0 < length ts" and l2: "Suc (Suc 0) < length ts" by simp_all
  have s1: "run_step [3 / 2, 0] 1 0 ?W 1 1 1 = Inr ([0, 5], [True, False])"
    by (simp add: run_step_def run_step_dV_def bindE_def jnp_where_def broadcast_def dot_def
        jit_scale_def)
  have s2: "run_step [0, 5] 1 0 ?W 1 1 1 = Inr ([5, 0], [False, True])"
    by (simp add: run_step_def run_step_dV_def bindE_def jnp_where_def broadcast_def dot_def
        jit_scale_def)
  have u1: "run_upto ?W [3 / 2, 0] 1 0 1 1 t_max 1 (Suc 0) = Inr ([0, 5], [[True, False]])"
    unfolding run_upto_Suc [OF ts(1) l1] run_upto_0 [OF ts(1)] by (simp add: s1)
  have u2: "run_upto ?W [3 / 2, 0] 1 0 1 1 t_max 1 (Suc (Suc 0))
      = Inr ([5, 0], [[True, False], [False, True]])"
    unfolding run_upto_Suc [OF ts(1) l2] u1 by (simp add: s2)
  have sq: "square 2 ?W"
    by (simp add: square_def mat_ok_def nrows_def)
  from run_simulation_square [OF sq, of "[3 / 2, 0]" 1 1 0 1 1 t_max]
  obtain train where run: "run_simulation ?W [3 / 2, 0] 1 0 1 1 t_max 1 = Inr train"
    and "length train = nat \<lceil>t_max / 1\<rceil> - 1"
    by auto
  then have "length train = length ts - 1" by (simp only: ts(2))
  with l have len: "2 \<le> length train" by linarith
  from run_upto_prefix [OF run, of 2] len u2 have "take 2 train = [[True, False], [False, True]]"
    by (simp add: numeral_2_eq_2)
  then have t2: "take 2 train = [[True, False], [False, True]]" .
  have "train ! 0 = take 2 train ! 0" and "train ! 1 = take 2 train ! 1"
    by simp_all
  then have "train ! 0 = [True, False] \<and> train ! 1 = [False, True]"
    by (simp add: t2)
  with run len u1 u2 show ?thesis
    by (simp add: numeral_2_eq_2)
qed

theorem two_neuron_scenario_witness:
  "(2 :: real) < 3
   \<and> run_upto (Mat 2 [[0, 5], [5, 0]]) [3 / 2, 0] 1 0 1 1 3 1 1 = Inr ([0, 5], [[True, False]])
   \<and> run_upto (Mat 2 [[0, 5], [5, 0]]) [3 / 2, 0] 1 0 1 1 3 1 2
        = Inr ([5, 0], [[True, False], [False, True]])"
proof -
  have h: "(2 :: real) < 3" by simp
  from two_neuron_scenario [OF h] show ?thesis by simp
qed

section \<open>No input is mutated\<close>

text \<open>
  Claim C8. Take any store in which \<open>W\<close> names a matrix and \<open>V\<close> a vector of potentials,
  NumPy or JAX. After a call of either variant, whether it returns or raises, every object
  that existed before the call is unchanged, in particular the caller's \<open>W\<close> and \<open>V\<close> (the
  scalars are immutable values). A returned spike train is a list object created by this
  call, and its masks are those the function on values computes from the contents of
  \<open>W\<close> and \<open>V\<close>. So a second call with the same arguments leaves the first call's list as it
  was and returns another list with the same masks.
\<close>

theorem inputs_not_mutated:
  assumes "W < length h" and "h ! W = MatArr kw w" and "V < length h" and "h ! V = FloatArr kv v"
  shows "(case run_simulation_st W V tau_m v_reset v_thresh membr_R t_max dt h of
            (res, h') \<Rightarrow>
              take (length h) h' = h \<and> h' ! W = h ! W \<and> h' ! V = h ! V
              \<and> (case res of
                    Inl e \<Rightarrow> run_simulation w v tau_m v_reset v_thresh membr_R t_max dt = Inl e
                  | Inr l \<Rightarrow> length h \<le> l
                      \<and> run_simulation w v tau_m v_reset v_thresh membr_R t_max dt
                          = Inr (masks_of h' l)))
       \<and> (case run_simulation2_st W V tau_m v_reset v_thresh membr_R t_max dt h of
            (res, h') \<Rightarrow>
              take (length h) h' = h \<and> h' ! W = h ! W \<and> h' ! V = h ! V
              \<and> (case res of
                    Inl e \<Rightarrow> run_simulation2 w v tau_m v_reset v_thresh membr_R t_max dt = Inl e
                  | Inr l \<Rightarrow> length h \<le> l
                      \<and> run_simulation2 w v tau_m v_reset v_thresh membr_R t_max dt
                          = Inr (masks_of h' l)))
       \<and> (case run_simulation_st W V tau_m v_reset v_thresh membr_R t_max dt h of
           (res1, h1) \<Rightarrow>
             (case run_simulation_st W V tau_m v_reset v_thresh membr_R t_max dt h1 of
                (res2, h2) \<Rightarrow>
                  take (length h1) h2 = h1
                  \<and> (case res1 of
                        Inl e \<Rightarrow> res2 = Inl e
                      | Inr l1 \<Rightarrow>
                          (case res2 of
                             Inl e \<Rightarrow> False
                           | Inr l2 \<Rightarrow> l1 \<noteq> l2 \<and> masks_of h2 l1 = masks_of h1 l1
                               \<and> masks_of h2 l2 = masks_of h1 l1))))
       \<and> (case run_simulation2_st W V tau_m v_reset v_thresh membr_R t_max dt h of
           (res1, h1) \<Rightarrow>
             (case run_simulation2_st W V tau_m v_reset v_thresh membr_R t_max dt h1 of
                (res2, h2) \<Rightarrow>
                  take (length h1) h2 = h1
                  \<and> (case res1 of
                        Inl e \<Rightarrow> res2 = Inl e
                      | Inr l1 \<Rightarrow>
                          (case res2 of
                             Inl e \<Rightarrow> False
                           | Inr l2 \<Rightarrow> l1 \<noteq> l2 \<and> masks_of h2 l1 = masks_of h1 l1
                               \<and> masks_of h2 l2 = masks_of h1 l1))))"
proof -
  have later: "W < length h1 \<and> h1 ! W = MatArr kw w \<and> V < length h1 \<and> h1 ! V = FloatArr kv v"
    if "prefix h h1" for h1
    using that assms by (auto simp: prefix_def nth_append)
  note r1 = run_simulation_st_refines [OF assms, of tau_m v_reset v_thresh membr_R t_max dt]
  note r2 = run_simulation2_st_refines [OF assms, of tau_m v_reset v_thresh membr_R t_max dt]
  have r1': "case run_simulation_st W V tau_m v_reset v_thresh membr_R t_max dt h1 of
           (Inl e, h') \<Rightarrow> run_simulation w v tau_m v_reset v_thresh membr_R t_max dt = Inl e
         | (Inr l, h') \<Rightarrow>
             (\<exists>tr. run_simulation w v tau_m v_reset v_thresh membr_R t_max dt = Inr tr
                \<and> holds_train h' l tr)" if "prefix h h1" for h1
    using later [OF that] by (intro run_simulation_st_refines) simp_all
  have r2': "case run_simulation2_st W V tau_m v_reset v_thresh membr_R t_max dt h1 of
           (Inl e, h') \<Rightarrow> run_simulation2 w v tau_m v_reset v_thresh membr_R t_max dt = Inl e
         | (Inr l, h') \<Rightarrow>
             (\<exists>tr. run_simulation2 w v tau_m v_reset v_thresh membr_R t_max dt = Inr tr
                \<and> holds_train h' l tr)" if "prefix h h1" for h1
    using later [OF that] by (intro run_simulation2_st_refines) simp_all
  show ?thesis
    by (intro conjI call_result [OF keeps_run_simulation_st r1 assms(1,3)]
        call_result [OF keeps_run_simulation2_st r2 assms(1,3)]
        second_call [OF keeps_run_simulation_st r1 keeps_run_simulation_st r1']
        second_call [OF keeps_run_simulation2_st r2 keeps_run_simulation2_st r2'])
qed

theorem inputs_not_mutated_witness:
  "(0 :: nat) < length [MatArr Numpy (Mat 2 [[0, 5], [5, 0]]), FloatArr Numpy [3 / 2, 0]]
   \<and> [MatArr Numpy (Mat 2 [[0, 5], [5, 0]]), FloatArr Numpy [3 / 2, 0]] ! 0
       = MatArr Numpy (Mat 2 [[0, 5], [5, 0]])
   \<and> (1 :: nat) < length [MatArr Numpy (Mat 2 [[0, 5], [5, 0]]), FloatArr Numpy [3 / 2, 0]]
   \<and> [MatArr Numpy (Mat 2 [[0, 5], [5, 0]]), FloatArr Numpy [3 / 2, 0]] ! 1
       = FloatArr Numpy [3 / 2, 0]
   \<and> fst (run_simulation2_st 0 1 1 0 1 1 3 1
            [MatArr Numpy (Mat 2 [[0, 5], [5, 0]]), FloatArr Numpy [3 / 2, 0]]) = Inr 2
   \<and> take (length [MatArr Numpy (Mat 2 [[0, 5], [5, 0]]), FloatArr Numpy [3 / 2, 0]])
         (snd (run_simulation_st 0 1 1 0 1 1 3 1
            [MatArr Numpy (Mat 2 [[0, 5], [5, 0]]), FloatArr Numpy [3 / 2, 0]]))
       = [MatArr Numpy (Mat 2 [[0, 5], [5, 0]]), FloatArr Numpy [3 / 2, 0]]
   \<and> take (length [MatArr Numpy (Mat 2 [[0, 5], [5, 0]]), FloatArr Numpy [3 / 2, 0]])
         (snd (run_simulation2_st 0 1 1 0 1 1 3 1
            [MatArr Numpy (Mat 2 [[0, 5], [5, 0]]), FloatArr Numpy [3 / 2, 0]]))
       = [MatArr Numpy (Mat 2 [[0, 5], [5, 0]]), FloatArr Numpy [3 / 2, 0]]"
proof -
  let ?h = "[MatArr Numpy (Mat 2 [[0, 5], [5, 0]]), FloatArr Numpy [3 / 2, 0]]"
  have h: "0 < length ?h" "?h ! 0 = MatArr Numpy (Mat 2 [[0, 5], [5, 0]])"
    "1 < length ?h" "?h ! 1 = FloatArr Numpy [3 / 2, 0]"
    by simp_all
  have r: "fst (run_simulation2_st 0 1 1 0 1 1 3 1 ?h) = Inr 2"
    by code_simp
  note t = inputs_not_mutated [OF h, of 1 0 1 1 3 1, unfolded split_def]
  from t have a: "take (length ?h) (snd (run_simulation_st 0 1 1 0 1 1 3 1 ?h)) = ?h"
    by (rule conjunct1 [OF conjunct1])
  from t have b: "take (length ?h) (snd (run_simulation2_st 0 1 1 0 1 1 3 1 ?h)) = ?h"
    by (rule conjunct1 [OF conjunct1 [OF conjunct2]])
  from h r a b show ?thesis by (intro conjI)
qed

section \<open>The first mask\<close>



section \<open>No neuron at all\<close>

text \<open>
  Claim C10, as amended. With the empty \<open>0 \<times> 0\<close> weight matrix and no potential, the first
  \<^verbatim>\<open>run_simulation\<close> raises nothing for \<open>dt > 0\<close> and a Python float \<open>t_max\<close>, whatever
  \<open>tau_m\<close> is: it returns \<open>\<lceil>q\<rceil> - 1\<close> empty masks, where \<open>q\<close> is the float64 quotient
  \<open>t_max / dt\<close> (none when that number is not positive).
\<close>

theorem no_neurons_rounded:
  assumes "0 < dt" and "fl64 t_max = t_max"
  shows "run_simulation_r fl32 fl64 (Mat 0 []) [] tau_m v_reset v_thresh membr_R t_max dt
           = Inr (replicate (nat (\<lceil>fl64 (t_max / dt)\<rceil> - 1)) [])"
proof -
  from assms(1) have "dt \<noteq> 0" by simp
  from arange_r_pos [OF this, of fl64 t_max] obtain ts where
    ts: "arange_r fl64 0 t_max dt = Inr ts" "length ts = nat \<lceil>fl64 (t_max / dt)\<rceil>"
    by (auto simp: assms(2))
  have "nat \<lceil>fl64 (t_max / dt)\<rceil> - 1 = nat (\<lceil>fl64 (t_max / dt)\<rceil> - 1)" by linarith
  then show ?thesis
    using ts by (simp add: run_simulation_r_def run_loop_r_empty recorded_enumerate)
qed

theorem no_neurons_rounded_witness:
  "(0 :: real) < 1 \<and> fl64 3 = 3
   \<and> run_simulation_r fl32 fl64 (Mat 0 []) [] 0 0 1 1 3 1 = Inr [[], []]"
proof -
  have h: "(0 :: real) < 1" by simp
  have "replicate (nat (\<lceil>3 :: real\<rceil> - 1)) ([] :: bool list) = [[], []]"
    by (simp add: numeral_2_eq_2)
  with no_neurons_rounded [OF h fl64_3, of 0 0 1 1] fl64_3 show ?thesis by simp
qed

text \<open>
  The count \<open>\<lceil>t_max / dt\<rceil> - 1\<close> of the claim as it was stated is 3 for the two values
  stored for the Python floats \<open>0.9\<close> and \<open>0.3\<close>, and the run returns two empty masks; it is
  6 for the decimal numbers \<open>2.1\<close> and \<open>0.3\<close>, and the run returns seven.
\<close>

theorem no_neurons_counterexample:
  "(0 :: real) < 5404319552844595 / 2 ^ 54
   \<and> fl64 (9 / 10) = 8106479329266893 / 2 ^ 53 \<and> fl64 (3 / 10) = 5404319552844595 / 2 ^ 54
   \<and> run_simulation_r fl32 fl64 (Mat 0 []) [] 1 0 1 1
         (8106479329266893 / 2 ^ 53) (5404319552844595 / 2 ^ 54)
       = Inr [[], []]
   \<and> nat (\<lceil>(8106479329266893 / 2 ^ 53 :: real) / (5404319552844595 / 2 ^ 54)\<rceil> - 1) = 3
   \<and> fl64 (21 / 10) = 4728779608739021 / 2 ^ 51
   \<and> run_simulation_r fl32 fl64 (Mat 0 []) [] 1 0 1 1
         (4728779608739021 / 2 ^ 51) (5404319552844595 / 2 ^ 54)
       = Inr [[], [], [], [], [], [], []]
   \<and> nat (\<lceil>(21 / 10 :: real) / (3 / 10)\<rceil> - 1) = 6"
  by code_simp

end
